theory Spec2Isabelle
  imports Complex_Main "HOL-Library.Signed_Division"
begin

section \<open>Conventions of the embedding\<close>

text \<open>
  The program is written in Go. Its \<^verbatim>\<open>float64\<close> values are modelled as \<^typ>\<open>real\<close>
  and its \<^verbatim>\<open>complex128\<close> values as \<^typ>\<open>complex\<close>: every statement below is a
  statement of exact arithmetic. Go's \<^verbatim>\<open>int\<close> is modelled as \<^typ>\<open>int\<close>; the
  sizes that occur are lengths of slices, far from the 64-bit bounds. A slice is a list.
  A run-time panic (index out of range, \<^verbatim>\<open>make\<close> with a negative length), an
  \<^verbatim>\<open>error\<close> value returned by \<^verbatim>\<open>errors.New\<close> and a call of \<^verbatim>\<open>os.Exit\<close>
  are values of the type \<open>error\<close>; a function that can fail returns \<open>error + 'a\<close>.
  A floating-point division by zero gives an infinity or a NaN in Go and does not panic;
  in \<^typ>\<open>real\<close> the quotient is 0. No property below depends on the value of such a
  quotient: where a divisor can be zero, the property is stated for the other cases or
  says only that a result is returned.
\<close>

datatype error = Panic | Failure string | Exit int

type_synonym matrix = "real list list"

text \<open>Go's conversion \<^verbatim>\<open>int(x)\<close> of a float truncates towards zero.\<close>

definition go_int :: "real \<Rightarrow> int" where
  "go_int x = (if 0 \<le> x then \<lfloor>x\<rfloor> else \<lceil>x\<rceil>)"

text \<open>\<^verbatim>\<open>math.Round\<close> rounds to the nearest integer, halves away from zero.\<close>

definition go_round :: "real \<Rightarrow> real" where
  "go_round x = (if 0 \<le> x then of_int \<lfloor>x + 1 / 2\<rfloor> else of_int \<lceil>x - 1 / 2\<rceil>)"

text \<open>
  Sequencing of computations that can fail: the first failure ends the computation.
  \<open>collect\<close> runs a list of them in order.
\<close>

definition bind :: "error + 'a \<Rightarrow> ('a \<Rightarrow> error + 'b) \<Rightarrow> error + 'b" where
  "bind r f = (case r of Inl e \<Rightarrow> Inl e | Inr v \<Rightarrow> f v)"

fun collect :: "(error + 'a) list \<Rightarrow> error + 'a list" where
  "collect [] = Inr []"
| "collect (r # rs) =
     (case r of Inl e \<Rightarrow> Inl e
      | Inr v \<Rightarrow> (case collect rs of Inl e \<Rightarrow> Inl e | Inr vs \<Rightarrow> Inr (v # vs)))"

text \<open>The reads \<^verbatim>\<open>v[i]\<close> and \<^verbatim>\<open>m[y][x]\<close>, with Go's bounds checks.\<close>

definition at1 :: "'a list \<Rightarrow> int \<Rightarrow> error + 'a" where
  "at1 v i = (if 0 \<le> i \<and> i < int (length v) then Inr (v ! nat i) else Inl Panic)"

definition at2 :: "'a list list \<Rightarrow> int \<Rightarrow> int \<Rightarrow> error + 'a" where
  "at2 m y x =
     (if 0 \<le> y \<and> y < int (length m) \<and> 0 \<le> x \<and> x < int (length (m ! nat y))
      then Inr (m ! nat y ! nat x) else Inl Panic)"

section \<open>Bilinear interpolation\<close>

text \<open>
  \<^verbatim>\<open>interpolate\<close> (the same text in package main and in package lightcurve). The
  constant \<^verbatim>\<open>1e-9\<close> is \<open>1 / 10 ^ 9\<close>.
\<close>

definition interpolate :: "matrix \<Rightarrow> real \<Rightarrow> real \<Rightarrow> error + real" where
  "interpolate m x y =
     (let n = int (length m) in
      if n = 0 then Inr 0
      else
        let x = (if x < 0 then 0 else x);
            y = (if y < 0 then 0 else y);
            x = (if x \<ge> of_int (n - 1) then of_int (n - 1) - 1 / 10 ^ 9 else x);
            y = (if y \<ge> of_int (n - 1) then of_int (n - 1) - 1 / 10 ^ 9 else y);
            x0 = go_int x;
            y0 = go_int y;
            x1 = x0 + 1;
            y1 = y0 + 1;
            xFrac = x - of_int x0;
            yFrac = y - of_int y0
        in case at2 m y0 x0 of Inl e \<Rightarrow> Inl e | Inr v00 \<Rightarrow>
           (case at2 m y0 x1 of Inl e \<Rightarrow> Inl e | Inr v01 \<Rightarrow>
           (case at2 m y1 x0 of Inl e \<Rightarrow> Inl e | Inr v10 \<Rightarrow>
           (case at2 m y1 x1 of Inl e \<Rightarrow> Inl e | Inr v11 \<Rightarrow>
              (let v0 = v00 * (1 - xFrac) + v01 * xFrac;
                   v1 = v10 * (1 - xFrac) + v11 * xFrac
               in Inr (v0 * (1 - yFrac) + v1 * yFrac))))))"

text \<open>A matrix is square of side \<open>n\<close>.\<close>

definition square :: "nat \<Rightarrow> 'a list list \<Rightarrow> bool" where
  "square n m \<longleftrightarrow> length m = n \<and> list_all (\<lambda>r. length r = n) m"


section \<open>The Fresnel weight kernel\<close>

text \<open>\<^verbatim>\<open>Linspace\<close> (openBLASmatrixMultiply.go).\<close>

definition Linspace :: "real \<Rightarrow> real \<Rightarrow> int \<Rightarrow> real list" where
  "Linspace start endv n =
     (if n \<le> 1 then [start]
      else
        let step = (endv - start) / of_int (n - 1)
        in map (\<lambda>i. start + of_int i * step) [0..n - 1])"

text \<open>
  The loop \<^verbatim>\<open>for m := range len(x) { row[m] = f(m) }\<close>: the store panics when
  \<open>m\<close> is not an index of \<open>row\<close>.
\<close>

fun assign_loop :: "(nat \<Rightarrow> 'a) \<Rightarrow> nat list \<Rightarrow> 'a list \<Rightarrow> error + 'a list" where
  "assign_loop f [] row = Inr row"
| "assign_loop f (m # ms) row =
     (if m < length row then assign_loop f ms (row[m := f m]) else Inl Panic)"

text \<open>
  \<^verbatim>\<open>fresnelWeightsTopRow\<close> (sincDiffraction.go). The Fresnel integrals
  \<^verbatim>\<open>fresnelCephesScalar\<close> live in a file that is not part of the sources at hand;
  the function is a parameter, returning the pair \<open>(S, C)\<close>. \<^verbatim>\<open>make\<close> panics on a
  negative length.
\<close>

definition fresnelWeightsTopRow ::
  "(real \<Rightarrow> real \<times> real) \<Rightarrow> int \<Rightarrow> real \<Rightarrow> real \<Rightarrow> real \<Rightarrow> error + complex list" where
  "fresnelWeightsTopRow fresnelCephesScalar NPts LKm ZKm WavelengthKm =
     (if NPts < 0 then Inl Panic
      else
        let fresnelWeightsRow = replicate (nat NPts) (0 :: complex);
            dx = LKm / of_int NPts;
            W = 1 / (2 * dx);
            delta = dx;
            k = pi * 2 / WavelengthKm;
            x = Linspace (- LKm / 2) (LKm / 2 - dx) NPts;
            t1 = - pi * sqrt (2 * ZKm / k) * W;
            t2 = sqrt (k / (2 * ZKm));
            t4 = (delta / pi) * sqrt (k / (2 * ZKm)) * sqrt (pi / 2);
            t5 = k / (2 * ZKm);
            t6 = sqrt (2 / pi);
            phiX = (\<lambda>m.
              let slide = x ! m - x ! 0;
                  u1x = t1 - t2 * slide;
                  u2x = - t1 - t2 * slide;
                  (S1x, C1x) = fresnelCephesScalar (u1x * t6);
                  (S2x, C2x) = fresnelCephesScalar (u2x * t6)
              in Complex t4 0 * exp (Complex 0 (slide * slide * t5))
                   * Complex (C2x - C1x) (- (S2x - S1x)))
        in assign_loop phiX [0..<length x] fresnelWeightsRow)"

definition AbsInt :: "int \<Rightarrow> int" where
  "AbsInt x = (if x < 0 then - x else x)"

text \<open>\<^verbatim>\<open>fresnelWeights\<close>: the full matrix, element by element from the top row.\<close>

definition fresnelWeights ::
  "(real \<Rightarrow> real \<times> real) \<Rightarrow> int \<Rightarrow> real \<Rightarrow> real \<Rightarrow> real \<Rightarrow> error + complex list list" where
  "fresnelWeights fresnelCephesScalar NPts LKm ZKm WavelengthKm =
     bind (fresnelWeightsTopRow fresnelCephesScalar NPts LKm ZKm WavelengthKm) (\<lambda>topRow.
       collect (map (\<lambda>row. collect (map (\<lambda>col. at1 topRow (AbsInt (col - row))) [0..NPts - 1]))
                    [0..NPts - 1]))"

section \<open>The observation chord\<close>

subsection \<open>Package lightcurve\<close>

record PathPoint =
  X :: real
  Y :: real
  DistanceFromStart :: real

text \<open>Of \<^verbatim>\<open>ObservationPath\<close>, the fields that the sampler and the edge finder use.\<close>

record ObservationPath =
  StartX :: real
  StartY :: real
  EndX :: real
  EndY :: real
  SamplePoints :: "PathPoint list"

definition ComputeSamplePoints :: "ObservationPath \<Rightarrow> ObservationPath" where
  "ComputeSamplePoints p =
     (let xLength = EndX p - StartX p;
          yLength = EndY p - StartY p;
          pathLength = sqrt (xLength * xLength + yLength * yLength);
          dYPerStep = yLength / pathLength;
          dXPerStep = xLength / pathLength
      in p\<lparr>SamplePoints :=
           map (\<lambda>i.
                  let k = of_int i;
                      xVal = StartX p + k * dXPerStep;
                      yVal = StartY p + k * dYPerStep;
                      distanceFromStart =
                        sqrt (k * k * dXPerStep * dXPerStep + k * k * dYPerStep * dYPerStep)
                  in \<lparr>X = xVal, Y = yVal, DistanceFromStart = distanceFromStart\<rparr>)
               [0..go_int (go_round pathLength) - 1]\<rparr>)"

text \<open>
  The loop of the edge finder over the samples \<open>(x, y, distance)\<close>, with the list of
  edges found so far and the colour expected at the next edge.
\<close>

fun edge_loop :: "matrix \<Rightarrow> (real \<times> real \<times> real) list \<Rightarrow> real list \<Rightarrow> real \<Rightarrow> error + real list"
  where
  "edge_loop m [] ans colorAtNextEdge = Inr ans"
| "edge_loop m (pt # pts) ans colorAtNextEdge =
     (case interpolate m (fst pt) (fst (snd pt)) of
        Inl e \<Rightarrow> Inl e
      | Inr v \<Rightarrow>
          (let pixelValue = (if v > 0 then 1 else v)
           in if pixelValue = colorAtNextEdge
              then edge_loop m pts (ans @ [snd (snd pt)]) (1 - colorAtNextEdge)
              else edge_loop m pts ans colorAtNextEdge))"

text \<open>
  \<^verbatim>\<open>lightcurve.FindEdgesInGeometricShadow\<close>: the path is passed by pointer and is
  sampled first when it has no samples yet, so the path is returned with the edges.
\<close>

definition lightcurve_FindEdgesInGeometricShadow ::
  "matrix \<Rightarrow> ObservationPath \<Rightarrow> error + (real list \<times> ObservationPath)" where
  "lightcurve_FindEdgesInGeometricShadow geometricMatrix path =
     (let path = (if length (SamplePoints path) = 0 then ComputeSamplePoints path else path)
      in bind (edge_loop geometricMatrix
                 (map (\<lambda>pt. (X pt, Y pt, DistanceFromStart pt)) (SamplePoints path)) [] 1)
           (\<lambda>edges. Inr (edges, path)))"

subsection \<open>Package main\<close>

text \<open>
  Of \<^verbatim>\<open>OccultationEvent\<close>, the fields that the functions below use. The slice
  \<^verbatim>\<open>QEtable\<close> is a reference to its backing array: \<open>None\<close> is the nil slice,
  \<open>Some a\<close> the slice over the whole array at address \<open>a\<close> of the store.
\<close>

record OccultationEvent =
  IntensityMatrix :: matrix
  GeometricMatrix :: matrix
  PathSamplePoints :: "(real \<times> real \<times> real) list"
  PathStart :: "real \<times> real"
  PathEnd :: "real \<times> real"
  PathToQEtable :: string
  QEtable :: "nat option"
  ObservationWavelengthNm :: real
  PercentMagDrop :: real

definition computePathPoints :: "OccultationEvent \<Rightarrow> OccultationEvent" where
  "computePathPoints e =
     (let xLengthPixels = fst (PathEnd e) - fst (PathStart e);
          yLengthPixels = snd (PathEnd e) - snd (PathStart e);
          pathLengthPixels = sqrt (xLengthPixels * xLengthPixels + yLengthPixels * yLengthPixels);
          dYPerStep = yLengthPixels / pathLengthPixels;
          dXPerStep = xLengthPixels / pathLengthPixels;
          startX = fst (PathStart e);
          startY = snd (PathStart e)
      in e\<lparr>PathSamplePoints := PathSamplePoints e @
           map (\<lambda>i.
                  let k = of_int i;
                      xVal = startX + k * dXPerStep;
                      yVal = startY + k * dYPerStep;
                      distanceFromStart =
                        sqrt (k * k * dXPerStep * dXPerStep + k * k * dYPerStep * dYPerStep)
                  in (xVal, yVal, distanceFromStart))
               [0..go_int (go_round pathLengthPixels) - 1]\<rparr>)"

text \<open>\<^verbatim>\<open>FindEdgesInGeometricShadow\<close> (pathFuncs.go).\<close>

definition FindEdgesInGeometricShadow :: "OccultationEvent \<Rightarrow> error + real list" where
  "FindEdgesInGeometricShadow e = edge_loop (GeometricMatrix e) (PathSamplePoints e) [] 1"

section \<open>The star PSF\<close>

definition StarBrightness :: "real \<Rightarrow> real \<Rightarrow> real \<Rightarrow> real" where
  "StarBrightness r starDiamKm limbDarkeningCoeff =
     (let starRadius = starDiamKm / 2;
          x = r / starRadius
      in if x \<ge> 1 then 0 else 1 - limbDarkeningCoeff * (1 - sqrt (1 - x * x)))"

text \<open>
  \<^verbatim>\<open>BuildStarPsf\<close>: the two nested loops carry the matrix built so far and the
  running sum of the weights. The integer operators \<^verbatim>\<open>%\<close> and \<^verbatim>\<open>/\<close> of Go
  truncate towards zero.
\<close>

definition psf_row ::
  "real \<Rightarrow> real \<Rightarrow> real \<Rightarrow> int \<Rightarrow> int \<Rightarrow> int \<Rightarrow> real list \<times> real \<Rightarrow> real list \<times> real" where
  "psf_row starDiamKm resolutionPointsPerKm limbDarkeningCoeff psfWidthPixels center row =
     fold (\<lambda>col (starRow, sumOfWeights).
             let r = sqrt (of_int ((row - center) * (row - center)
                                   + (col - center) * (col - center)))
                       * resolutionPointsPerKm;
                 brightness = StarBrightness r starDiamKm limbDarkeningCoeff
             in (starRow @ [brightness], sumOfWeights + brightness))
          [0..psfWidthPixels - 1]"

definition BuildStarPsf :: "real \<Rightarrow> real \<Rightarrow> real \<Rightarrow> error + (matrix \<times> real)" where
  "BuildStarPsf starDiamKm resolutionPointsPerKm limbDarkeningCoeff =
     (let psfWidthPixels = go_int (of_int \<lceil>starDiamKm / resolutionPointsPerKm\<rceil>);
          psfWidthPixels = (if psfWidthPixels smod 2 \<noteq> 0 then psfWidthPixels + 1
                            else psfWidthPixels);
          psfWidthPixels = psfWidthPixels + 4
      in if psfWidthPixels < 0 then Inl Panic
         else
           let center = psfWidthPixels sdiv 2
           in Inr (fold (\<lambda>row (starMatrix, sumOfWeights).
                           let (starRow, sumOfWeights) =
                                 psf_row starDiamKm resolutionPointsPerKm limbDarkeningCoeff
                                   psfWidthPixels center row ([], sumOfWeights)
                           in (starMatrix @ [starRow], sumOfWeights))
                        [0..psfWidthPixels - 1] ([], 0)))"

section \<open>Convolution by FFT\<close>

definition ConvSame :: int where "ConvSame = 0"
definition ConvFull :: int where "ConvFull = 1"
definition ConvValid :: int where "ConvValid = 2"

definition PadZeros :: int where "PadZeros = 0"
definition PadReflect :: int where "PadReflect = 1"
definition PadReplicate :: int where "PadReplicate = 2"
definition PadCircular :: int where "PadCircular = 3"

definition rectSize :: "'a list list \<Rightarrow> error + (int \<times> int)" where
  "rectSize m =
     (let h = int (length m) in
      if h = 0 then Inr (0, 0)
      else
        let w = int (length (hd m))
        in if list_ex (\<lambda>row. int (length row) \<noteq> w) (tl m) then Inl (Failure ''ragged matrix'')
           else Inr (h, w))"

definition makeComplex2D :: "int \<Rightarrow> int \<Rightarrow> complex list list" where
  "makeComplex2D h w = replicate (nat h) (replicate (nat w) 0)"

text \<open>
  The loop of \<^verbatim>\<open>nextPow2\<close> doubles \<open>p\<close>, which starts at 1 and so stays
  positive; the test \<open>0 < p\<close> says so and makes the recursion well-founded.
\<close>

function nextPow2_loop :: "int \<Rightarrow> int \<Rightarrow> int" where
  "nextPow2_loop p n = (if 0 < p \<and> p < n then nextPow2_loop (2 * p) n else p)"
  by pat_completeness auto
termination
  by (relation "measure (\<lambda>(p, n). nat (n - p))") auto

declare nextPow2_loop.simps [simp del]

definition nextPow2 :: "int \<Rightarrow> int" where
  "nextPow2 n = (if n \<le> 1 then 1 else nextPow2_loop 1 n)"

definition clamp :: "int \<Rightarrow> int \<Rightarrow> int \<Rightarrow> int" where
  "clamp v lo hi = (if v < lo then lo else if v > hi then hi else v)"

text \<open>\<^verbatim>\<open>mod\<close> (the name is taken in HOL): \<^verbatim>\<open>i % n\<close> panics when \<open>n\<close> is zero.\<close>

definition mod_int :: "int \<Rightarrow> int \<Rightarrow> error + int" where
  "mod_int i n =
     (if n = 0 then Inl Panic
      else let r = i smod n in Inr (if r < 0 then r + n else r))"

definition reflectIndex :: "int \<Rightarrow> int \<Rightarrow> error + int" where
  "reflectIndex i n =
     (if n \<le> 1 then Inr 0
      else
        let period = 2 * n - 2
        in bind (mod_int i period) (\<lambda>i. Inr (if i \<ge> n then period - i else i)))"

definition sample2D :: "matrix \<Rightarrow> int \<Rightarrow> int \<Rightarrow> int \<Rightarrow> error + real" where
  "sample2D img y x pmode =
     (if img = [] then Inl Panic
      else
        let H = int (length img);
            W = int (length (hd img))
        in if 0 \<le> y \<and> y < H \<and> 0 \<le> x \<and> x < W then at2 img y x
           else if pmode = PadZeros then Inr 0
           else if pmode = PadReplicate
             then at2 img (clamp y 0 (H - 1)) (clamp x 0 (W - 1))
           else if pmode = PadReflect
             then bind (reflectIndex y H) (\<lambda>yy. bind (reflectIndex x W) (\<lambda>xx. at2 img yy xx))
           else if pmode = PadCircular
             then bind (mod_int y H) (\<lambda>yy. bind (mod_int x W) (\<lambda>xx. at2 img yy xx))
           else Inr 0)"

definition ifftshift2D :: "matrix \<Rightarrow> error + matrix" where
  "ifftshift2D x =
     (if x = [] then Inl Panic
      else
        let h = int (length x);
            w = int (length (hd x));
            shY = h sdiv 2;
            shX = w sdiv 2
        in collect (map (\<lambda>y. let yy = (y + shY) smod h
                              in collect (map (\<lambda>x0. let xx = (x0 + shX) smod w
                                                    in at2 x yy xx) [0..w - 1]))
                        [0..h - 1]))"

text \<open>
  Modelled from the spec: the one-dimensional transforms come from an external FFT
  library, whose code is not in the repository. \<^verbatim>\<open>Coefficients\<close> is the forward
  discrete Fourier transform and \<^verbatim>\<open>Sequence\<close> the inverse one, both without
  normalisation (the spec: forward-then-inverse FFTs without normalization must be
  divided by the number of points).
\<close>

definition Coefficients :: "complex list \<Rightarrow> complex list" where
  "Coefficients sq =
     (let n = length sq
      in map (\<lambda>k. \<Sum>j<n. sq ! j * cis (- (2 * pi * real j * real k / real n))) [0..<n])"

definition Sequence :: "complex list \<Rightarrow> complex list" where
  "Sequence coeff =
     (let n = length coeff
      in map (\<lambda>k. \<Sum>j<n. coeff ! j * cis (2 * pi * real j * real k / real n)) [0..<n])"

text \<open>
  \<^verbatim>\<open>fft2InPlace\<close>: rows, then columns. The program applies it to the grids of
  \<^verbatim>\<open>makeComplex2D\<close> only, whose rows all have the width \<^verbatim>\<open>len(a[0])\<close>. On
  a grid with a row of another length the source would copy a part of the row or read
  out of range; the model fails there.
\<close>

definition fft2InPlace :: "complex list list \<Rightarrow> bool \<Rightarrow> error + complex list list" where
  "fft2InPlace a forward =
     (if a = [] then Inl Panic
      else
        let h = length a;
            w = length (hd a);
            tr = (if forward then Coefficients else Sequence)
        in if list_ex (\<lambda>row. length row \<noteq> w) a then Inl Panic
           else
             let rows = map tr a;
                 cols = map (\<lambda>x. tr (map (\<lambda>y. rows ! y ! x) [0..<h])) [0..<w]
             in Inr (map (\<lambda>y. map (\<lambda>x. cols ! x ! y) [0..<w]) [0..<h]))"

text \<open>
  The crop loops of the modes Same and Valid: row \<open>y\<close> of the output is the slice
  \<^verbatim>\<open>full[y+offY][offX:offX+w]\<close>.
\<close>

definition crop :: "matrix \<Rightarrow> int \<Rightarrow> int \<Rightarrow> int \<Rightarrow> int \<Rightarrow> error + matrix" where
  "crop full offY offX h w =
     collect (map (\<lambda>y. bind (at1 full (y + offY)) (\<lambda>row.
                          if 0 \<le> offX \<and> offX \<le> offX + w \<and> offX + w \<le> int (length row)
                          then Inr (take (nat w) (drop (nat offX) row))
                          else Inl Panic))
                  [0..h - 1])"

definition ConvolvePSFFFT ::
  "matrix \<Rightarrow> matrix \<Rightarrow> real \<Rightarrow> int \<Rightarrow> int \<Rightarrow> bool \<Rightarrow> error + matrix" where
  "ConvolvePSFFFT img psf starSum cmode pad centeredPsf =
     bind (rectSize img) (\<lambda>(H, W).
     bind (rectSize psf) (\<lambda>(Ph, Pw).
     if H = 0 \<or> W = 0 \<or> Ph = 0 \<or> Pw = 0 then Inl (Failure ''empty image or psf'')
     else
       bind (if cmode = ConvSame then Inr (H, W)
             else if cmode = ConvFull then Inr (H + Ph - 1, W + Pw - 1)
             else if cmode = ConvValid then
               (if H - Ph + 1 \<le> 0 \<or> W - Pw + 1 \<le> 0
                then Inl (Failure ''valid convolution requested but psf larger than image'')
                else Inr (H - Ph + 1, W - Pw + 1))
             else Inl (Failure ''unknown ConvMode'')) (\<lambda>(outH, outW).
       let FH = nextPow2 (H + Ph - 1);
           FW = nextPow2 (W + Pw - 1);
           FH = (if FH smod 2 \<noteq> 0 then FH + 1 else FH);
           FW = (if FW smod 2 \<noteq> 0 then FW + 1 else FW)
       in
       bind (collect (map (\<lambda>y. collect (map (\<lambda>x.
                 bind (sample2D img y x pad) (\<lambda>v. Inr (Complex v 0))) [0..FW - 1]))
               [0..FH - 1])) (\<lambda>A.
       bind (if centeredPsf then ifftshift2D psf else Inr psf) (\<lambda>src.
       bind (collect (map (\<lambda>y. collect (map (\<lambda>x.
                 if y < Ph \<and> x < Pw then bind (at2 src y x) (\<lambda>v. Inr (Complex v 0))
                 else at2 (makeComplex2D FH FW) y x) [0..FW - 1]))
               [0..FH - 1])) (\<lambda>B.
       bind (fft2InPlace A True) (\<lambda>A.
       bind (fft2InPlace B True) (\<lambda>B.
       bind (fft2InPlace (map2 (map2 (*)) A B) False) (\<lambda>A.
       let scale = of_int (FH * FW) in
       bind (collect (map (\<lambda>y. collect (map (\<lambda>x.
                 bind (at2 A y x) (\<lambda>c. Inr (Re c / scale / starSum))) [0..W + Pw - 1 - 1]))
               [0..H + Ph - 1 - 1])) (\<lambda>full.
       if cmode = ConvFull then Inr full
       else if cmode = ConvSame then crop full (Ph sdiv 2) (Pw sdiv 2) H W
       else if cmode = ConvValid then crop full (Ph - 1) (Pw - 1) outH outW
       else Inl (Failure ''unreachable'')))))))))))"

section \<open>The driver\<close>

text \<open>
  The store of the backing arrays of QE tables, by address. \<^verbatim>\<open>qeTable\<close> and
  \<^verbatim>\<open>event.QEtable\<close> are two slices over one backing array.
\<close>

type_synonym store = "nat \<Rightarrow> (real \<times> real) list"

text \<open>
  The part of \<^verbatim>\<open>main\<close> that reads the camera response. Reading the file,
  parsing it and plotting the table are parameters: \<open>readFile\<close> gives the bytes or
  fails, \<open>parseArrayFormat\<close> (a JSON5 library call) gives the pairs, allocated at the
  fresh address \<open>a\<close>, or fails, and \<open>MakeCameraResponsePlot\<close>, which draws the
  normalised table with an external plotting library, says whether the library succeeded;
  when it did not, the program ends there (\<^verbatim>\<open>log.Fatal\<close>, exit code 1).
\<close>

definition main_read_qe ::
  "(string \<Rightarrow> string option) \<Rightarrow> (string \<Rightarrow> string + (real \<times> real) list)
     \<Rightarrow> ((real \<times> real) list \<Rightarrow> bool) \<Rightarrow> nat
     \<Rightarrow> store \<times> OccultationEvent \<Rightarrow> error + (store \<times> OccultationEvent)" where
  "main_read_qe readFile parseArrayFormat MakeCameraResponsePlot a = (\<lambda>(st, event).
     if PathToQEtable event \<noteq> [] then
       (case readFile (PathToQEtable event) of
          None \<Rightarrow> Inl (Exit 13)
        | Some data \<Rightarrow>
            (case parseArrayFormat data of
               Inl err \<Rightarrow> Inl (Exit 15)
             | Inr pairs \<Rightarrow>
                 (let st = st(a := pairs);
                      qeTable = a;
                      event = event\<lparr>QEtable := Some qeTable\<rparr>
                  in if length (st qeTable) < 1 then Inl (Exit 14)
                     else
                       let cumWeights =
                             fold (\<lambda>i cumWeights. cumWeights + snd (st qeTable ! i))
                               [0..<length (st qeTable)] 0;
                           st = fold (\<lambda>i st. st(qeTable :=
                                        (st qeTable)[i := (fst (st qeTable ! i),
                                                           snd (st qeTable ! i) / cumWeights)]))
                                  [0..<length (st qeTable)] st
                       in if MakeCameraResponsePlot (st qeTable) then Inr (st, event)
                          else Inl (Exit 1))))
     else Inr (st, event))"

definition scaleComplex :: "complex list \<Rightarrow> real \<Rightarrow> complex list" where
  "scaleComplex v scale = (let s = Complex scale 0 in map (\<lambda>c. c * s) v)"

definition addScaledComplexInPlace :: "complex list \<Rightarrow> complex list \<Rightarrow> real \<Rightarrow> error + complex list"
  where
  "addScaledComplexInPlace a b scaleB =
     (if length a \<noteq> length b then Inl Panic
      else Inr (map (\<lambda>i. a ! i + Complex scaleB 0 * b ! i) [0..<length a]))"

definition nmToKm :: real where
  "nmToKm = 1 / 10 ^ 9 * (1 / 10 ^ 3)"

text \<open>
  The part of \<^verbatim>\<open>main\<close> that computes the field. The propagator
  \<^verbatim>\<open>FullObservationPlaneSincSolution(Lkm, Zkm, \<cdot>, sourcePlane)\<close>, which multiplies
  matrices through an external BLAS, is the parameter \<open>solution\<close>, a function of
  the wavelength in km.
\<close>

definition main_efield ::
  "(real \<Rightarrow> complex list) \<Rightarrow> store \<times> OccultationEvent \<Rightarrow> error + complex list" where
  "main_efield solution = (\<lambda>(st, event).
     let tbl = (case QEtable event of None \<Rightarrow> [] | Some a \<Rightarrow> st a)
     in if length tbl > 0 then
          fold (\<lambda>i acc. bind acc (\<lambda>eField.
                  addScaledComplexInPlace eField (solution (fst (tbl ! i) * nmToKm))
                    (snd (tbl ! i))))
            [1..<length tbl]
            (Inr (scaleComplex (solution (fst (tbl ! 0) * nmToKm)) (snd (tbl ! 0))))
        else Inr (solution (ObservationWavelengthNm event * nmToKm)))"

text \<open>
  The magnitude-drop adjustment of \<^verbatim>\<open>main\<close>. What the program prints is
  returned as a list of messages.
\<close>

datatype message = PercentMagDropTooLarge real

definition main_mag_drop ::
  "OccultationEvent \<times> message list \<Rightarrow> OccultationEvent \<times> message list" where
  "main_mag_drop = (\<lambda>(event, out).
     if PercentMagDrop event > 0 then
       (let (event, out) =
              (if PercentMagDrop event > 100
               then (event\<lparr>PercentMagDrop := 100\<rparr>,
                     out @ [PercentMagDropTooLarge (PercentMagDrop event)])
               else (event, out));
            scaleFactor = PercentMagDrop event / 100;
            shiftUp = 1 - scaleFactor
        in (event\<lparr>IntensityMatrix :=
              map (map (\<lambda>v. v * scaleFactor + shiftUp)) (IntensityMatrix event)\<rparr>, out))
     else (event, out))"

section \<open>Sample inputs\<close>

text \<open>An event with a 2 x 2 intensity matrix and a given magnitude-drop percentage.\<close>

definition sample_event :: "real \<Rightarrow> OccultationEvent" where
  "sample_event p = \<lparr>IntensityMatrix = [[0, 1], [2, 4]], GeometricMatrix = [],
     PathSamplePoints = [], PathStart = (0, 0), PathEnd = (0, 0), PathToQEtable = [],
     QEtable = None, ObservationWavelengthNm = 600, PercentMagDrop = p\<rparr>"

text \<open>A path from \<open>(0, 0)\<close> to \<open>(3, 4)\<close>, of length 5.\<close>

definition diagonal_path :: ObservationPath where
  "diagonal_path = \<lparr>StartX = 0, StartY = 0, EndX = 3, EndY = 4, SamplePoints = []\<rparr>"

text \<open>An event with a given geometric matrix and given samples.\<close>

definition event_with :: "matrix \<Rightarrow> (real \<times> real \<times> real) list \<Rightarrow> OccultationEvent" where
  "event_with g pts = \<lparr>IntensityMatrix = [], GeometricMatrix = g, PathSamplePoints = pts,
     PathStart = (0, 0), PathEnd = (0, 0), PathToQEtable = [], QEtable = None,
     ObservationWavelengthNm = 600, PercentMagDrop = 0\<rparr>"

text \<open>
  A 5 x 5 mask with an occulter of one pixel at the centre: in the encoding of package
  main (1.0 inside the occulter), and in that of the shadow image read by package
  lightcurve (0.0 inside the occulter, 1.0 where illuminated).
\<close>

definition occulter_lit :: matrix where
  "occulter_lit = [[0, 0, 0, 0, 0], [0, 0, 0, 0, 0], [0, 0, 1, 0, 0], [0, 0, 0, 0, 0],
                   [0, 0, 0, 0, 0]]"

definition occulter_dark :: matrix where
  "occulter_dark = [[1, 1, 1, 1, 1], [1, 1, 1, 1, 1], [1, 1, 0, 1, 1], [1, 1, 1, 1, 1],
                    [1, 1, 1, 1, 1]]"

text \<open>The chord along row 2 from the left edge, as samples and as a path to be sampled.\<close>

definition row_chord :: "(real \<times> real \<times> real) list" where
  "row_chord = [(0, 2, 0), (1, 2, 1), (2, 2, 2), (3, 2, 3)]"

definition row_path :: ObservationPath where
  "row_path = \<lparr>StartX = 0, StartY = 2, EndX = 4, EndY = 2, SamplePoints = []\<rparr>"

text \<open>
  The mask of a disc in the encoding of package main, 1.0 on the pixels within the radius
  \<open>r\<close> of the centre \<open>(cx, cy)\<close>; and an event whose mask is the disc of radius 1 around
  pixel \<open>(5, 7)\<close> of a 10 x 10 grid and whose path runs down column 5 from the top edge
  of the square, at \<open>y = 0.5\<close>, to the bottom edge, at \<open>y = 9.5\<close>.
\<close>

definition disc_mask :: "nat \<Rightarrow> real \<Rightarrow> real \<Rightarrow> real \<Rightarrow> matrix" where
  "disc_mask n cx cy r =
     map (\<lambda>y. map (\<lambda>x. if (real x - cx)\<^sup>2 + (real y - cy)\<^sup>2 \<le> r\<^sup>2 then 1 else 0) [0..<n])
       [0..<n]"

definition column_chord_event :: OccultationEvent where
  "column_chord_event = \<lparr>IntensityMatrix = [], GeometricMatrix = disc_mask 10 5 7 1,
     PathSamplePoints = [], PathStart = (5, 1 / 2), PathEnd = (5, 19 / 2), PathToQEtable = [],
     QEtable = None, ObservationWavelengthNm = 600, PercentMagDrop = 0\<rparr>"

text \<open>A 3 x 3 mask whose left column is positive.\<close>

definition left_lit :: matrix where
  "left_lit = [[1, 0, 0], [1, 0, 0], [1, 0, 0]]"

text \<open>An event that names a QE table file.\<close>

definition qe_event :: OccultationEvent where
  "qe_event = \<lparr>IntensityMatrix = [], GeometricMatrix = [], PathSamplePoints = [],
     PathStart = (0, 0), PathEnd = (0, 0), PathToQEtable = ''qe.json'', QEtable = None,
     ObservationWavelengthNm = 600, PercentMagDrop = 0\<rparr>"

text \<open>
  For stating the properties of the convolution: a matrix is ragged when one of its rows
  differs in length from the first row, and it is a grid of \<open>h\<close> rows and \<open>w\<close> columns
  when it has \<open>h\<close> rows, each of length \<open>w\<close>.
\<close>

definition ragged :: "'a list list \<Rightarrow> bool" where
  "ragged m \<longleftrightarrow> (\<exists>row \<in> set m. length row \<noteq> length (hd m))"

definition grid :: "nat \<Rightarrow> nat \<Rightarrow> 'a list list \<Rightarrow> bool" where
  "grid h w m \<longleftrightarrow> length m = h \<and> (\<forall>row \<in> set m. length row = w)"

text \<open>
  A 2 x 2 image and the 3 x 3 delta PSF, with the stages of their convolution on the
  4 x 4 FFT grid: the zero-padded image, its spectrum, and the spectra of the delta at the
  origin (all ones) and of the delta at the centre.
\<close>

definition image22 :: matrix where
  "image22 = [[1, 2], [3, 4]]"

definition delta33 :: matrix where
  "delta33 = [[0, 0, 0], [0, 1, 0], [0, 0, 0]]"

definition padded22 :: "complex list list" where
  "padded22 = [[1, 2, 0, 0], [3, 4, 0, 0], [0, 0, 0, 0], [0, 0, 0, 0]]"

definition spectrum22 :: "complex list list" where
  "spectrum22 = [[10, 4 - 6 * \<i>, - 2, 4 + 6 * \<i>],
                 [3 - 7 * \<i>, - 3 - 5 * \<i>, - 1 + \<i>, 5 - \<i>],
                 [- 4, - 2 + 2 * \<i>, 0, - 2 - 2 * \<i>],
                 [3 + 7 * \<i>, 5 + \<i>, - 1 - \<i>, - 3 + 5 * \<i>]]"

definition ones44 :: "complex list list" where
  "ones44 = [[1, 1, 1, 1], [1, 1, 1, 1], [1, 1, 1, 1], [1, 1, 1, 1]]"

definition phases44 :: "complex list list" where
  "phases44 = [[1, - \<i>, - 1, \<i>], [- \<i>, - 1, \<i>, 1], [- 1, \<i>, 1, - \<i>],
               [\<i>, 1, - \<i>, - 1]]"

text \<open>A ragged image.\<close>

definition ragged22 :: matrix where
  "ragged22 = [[1, 2], [3]]"

section \<open>Properties: bilinear interpolation\<close>

lemma go_int_of_nat [simp]: "go_int (real k) = int k"
  by (simp add: go_int_def)

lemma go_int_below_nat:
  assumes "0 < k"
  shows "go_int (real k - 1 / 10 ^ 9) = int k - 1"
proof -
  have "(1::real) \<le> real k" using assms by simp
  then have pos: "(0::real) \<le> real k - 1 / 10 ^ 9" by simp
  have "\<lfloor>real k - 1 / 10 ^ 9\<rfloor> = int k - 1"
    by (rule floor_unique) simp_all
  with pos show ?thesis by (simp add: go_int_def)
qed

lemma at2_square:
  assumes "square n m" "y < n" "x < n"
  shows "at2 m (int y) (int x) = Inr (m ! y ! x)"
proof -
  have "y < length m" using assms by (simp add: square_def)
  moreover from this have "length (m ! y) = n"
    using assms(1) by (simp add: square_def list_all_length)
  ultimately show ?thesis using assms by (simp add: at2_def)
qed

lemma interpolate_square:
  assumes sq: "square n m" and n: "2 \<le> n"
    and x0: "x0 + 1 < n" and y0: "y0 + 1 < n"
    and cx: "(if (if rx < 0 then 0 else rx) \<ge> real (n - 1) then real (n - 1) - 1 / 10 ^ 9
              else (if rx < 0 then 0 else rx)) = qx"
    and cy: "(if (if ry < 0 then 0 else ry) \<ge> real (n - 1) then real (n - 1) - 1 / 10 ^ 9
              else (if ry < 0 then 0 else ry)) = qy"
    and gx: "go_int qx = int x0" and gy: "go_int qy = int y0"
  shows "interpolate m rx ry =
         Inr ((m ! y0 ! x0 * (1 - (qx - real x0)) + m ! y0 ! (x0 + 1) * (qx - real x0))
                * (1 - (qy - real y0))
              + (m ! (y0 + 1) ! x0 * (1 - (qx - real x0))
                  + m ! (y0 + 1) ! (x0 + 1) * (qx - real x0)) * (qy - real y0))"
proof -
  have len: "length m = n" using sq by (simp add: square_def)
  have a: "at2 m (int y0) (int x0) = Inr (m ! y0 ! x0)"
    "at2 m (int y0) (int x0 + 1) = Inr (m ! y0 ! (x0 + 1))"
    "at2 m (int y0 + 1) (int x0) = Inr (m ! (y0 + 1) ! x0)"
    "at2 m (int y0 + 1) (int x0 + 1) = Inr (m ! (y0 + 1) ! (x0 + 1))"
    using at2_square [OF sq, of y0 x0] at2_square [OF sq, of y0 "x0 + 1"]
      at2_square [OF sq, of "y0 + 1" x0] at2_square [OF sq, of "y0 + 1" "x0 + 1"] x0 y0
    by (simp_all add: add.commute)
  have nn: "real_of_int (int n - 1) = real (n - 1)" using n by (simp add: of_nat_diff)
  have n0: "int n \<noteq> 0" using n by simp
  show ?thesis
    unfolding interpolate_def Let_def len nn cx cy gx gy a
    using n0 by simp
qed

text \<open>
  Claim C7, as the code has it. For a square matrix of side \<open>n \<ge> 2\<close> and integers
  \<open>x\<close>, \<open>y\<close> from \<open>0\<close> to \<open>n - 2\<close>, the interpolation at \<open>(x, y)\<close> returns the entry
  \<open>m[y][x]\<close> exactly. On the last column or row (\<open>x = n - 1\<close> or \<open>y = n - 1\<close>) the query
  is first clamped to \<open>n - 1 - 1e-9\<close>, and the result is the entry blended with its left or
  upper neighbour, which has the weight \<open>1e-9\<close>.
\<close>

theorem interpolate_at_grid_points:
  assumes sq: "square n m" and n: "2 \<le> n" and x: "x < n" and y: "y < n"
  shows "(x + 1 < n \<and> y + 1 < n \<longrightarrow> interpolate m (real x) (real y) = Inr (m ! y ! x))
       \<and> interpolate m (real x) (real y) =
           (let ex = (if x = n - 1 then 1 / 10 ^ 9 else 0);
                ey = (if y = n - 1 then 1 / 10 ^ 9 else 0)
            in Inr ((1 - ey) * ((1 - ex) * m ! y ! x + ex * m ! y ! (x - 1))
                    + ey * ((1 - ex) * m ! (y - 1) ! x + ex * m ! (y - 1) ! (x - 1))))"
proof -
  define qx where "qx = (if x = n - 1 then real (n - 1) - 1 / 10 ^ 9 else real x)"
  define qy where "qy = (if y = n - 1 then real (n - 1) - 1 / 10 ^ 9 else real y)"
  define x0 where "x0 = (if x = n - 1 then x - 1 else x)"
  define y0 where "y0 = (if y = n - 1 then y - 1 else y)"
  have bx: "x0 + 1 < n" and by': "y0 + 1 < n"
    using n x y by (auto simp: x0_def y0_def)
  have gx: "go_int qx = int x0"
    using n go_int_below_nat [of "n - 1"] by (auto simp: qx_def x0_def)
  have gy: "go_int qy = int y0"
    using n go_int_below_nat [of "n - 1"] by (auto simp: qy_def y0_def)
  have cx: "(if (if real x < 0 then 0 else real x) \<ge> real (n - 1)
             then real (n - 1) - 1 / 10 ^ 9 else (if real x < 0 then 0 else real x)) = qx"
    using x by (auto simp: qx_def)
  have cy: "(if (if real y < 0 then 0 else real y) \<ge> real (n - 1)
             then real (n - 1) - 1 / 10 ^ 9 else (if real y < 0 then 0 else real y)) = qy"
    using y by (auto simp: qy_def)
  note eq = interpolate_square [OF sq n bx by' cx cy gx gy]
  have fx: "qx - real x0 = (if x = n - 1 then 1 - 1 / 10 ^ 9 else 0)"
    using n by (auto simp: qx_def x0_def of_nat_diff)
  have fy: "qy - real y0 = (if y = n - 1 then 1 - 1 / 10 ^ 9 else 0)"
    using n by (auto simp: qy_def y0_def of_nat_diff)
  have ix: "x = n - 1 \<Longrightarrow> x0 + 1 = x" "x \<noteq> n - 1 \<Longrightarrow> x0 = x"
    using n by (auto simp: x0_def)
  have iy: "y = n - 1 \<Longrightarrow> y0 + 1 = y" "y \<noteq> n - 1 \<Longrightarrow> y0 = y"
    using n by (auto simp: y0_def)
  have general: "interpolate m (real x) (real y) =
           (let ex = (if x = n - 1 then 1 / 10 ^ 9 else 0);
                ey = (if y = n - 1 then 1 / 10 ^ 9 else 0)
            in Inr ((1 - ey) * ((1 - ex) * m ! y ! x + ex * m ! y ! (x - 1))
                    + ey * ((1 - ex) * m ! (y - 1) ! x + ex * m ! (y - 1) ! (x - 1))))"
  proof (cases "x = n - 1"; cases "y = n - 1")
    assume c: "x = n - 1" "y = n - 1"
    have "x0 = x - 1" "y0 = y - 1" using c by (simp_all add: x0_def y0_def)
    then show ?thesis
      unfolding eq fx fy Let_def using c ix(1) iy(1) by (simp add: algebra_simps)
  next
    assume c: "x = n - 1" "y \<noteq> n - 1"
    have "x0 = x - 1" "y0 = y" using c by (simp_all add: x0_def y0_def)
    then show ?thesis
      unfolding eq fx fy Let_def using c ix(1) by (simp add: algebra_simps)
  next
    assume c: "x \<noteq> n - 1" "y = n - 1"
    have "x0 = x" "y0 = y - 1" using c by (simp_all add: x0_def y0_def)
    then show ?thesis
      unfolding eq fx fy Let_def using c iy(1) by (simp add: algebra_simps)
  next
    assume c: "x \<noteq> n - 1" "y \<noteq> n - 1"
    have "x0 = x" "y0 = y" using c by (simp_all add: x0_def y0_def)
    then show ?thesis
      unfolding eq fx fy Let_def using c by simp
  qed
  have interior: "x + 1 < n \<and> y + 1 < n \<longrightarrow> interpolate m (real x) (real y) = Inr (m ! y ! x)"
    unfolding general by auto
  from interior general show ?thesis by blast
qed

theorem interpolate_at_grid_points_witness:
  "square 2 [[0, 1], [2, 3 :: real]] \<and> (2::nat) \<le> 2 \<and> (0::nat) < 2 \<and> (1::nat) < 2
   \<and> interpolate [[0, 1], [2, 3]] (real 0) (real 0) = Inr 0
   \<and> interpolate [[0, 1], [2, 3]] (real 0) (real 1) = Inr (2 - 2 / 10 ^ 9)"
proof -
  have sq: "square 2 [[0, 1], [2, 3 :: real]]" by (simp add: square_def)
  have a: "interpolate [[0, 1], [2, 3]] (real 0) (real 0) = Inr 0"
    using interpolate_at_grid_points [OF sq, of 0 0] by simp
  have b: "interpolate [[0, 1], [2, 3]] (real 0) (real 1) = Inr (2 - 2 / 10 ^ 9)"
    using interpolate_at_grid_points [OF sq, of 0 1] by (simp add: Let_def)
  from sq a b show ?thesis by simp
qed

text \<open>
  Claim C7 as it was stated, for all integers up to \<open>n - 1\<close>, fails on the last column.
\<close>

theorem interpolate_last_column_counterexample:
  "square 2 [[0, 1], [0, 1 :: real]]
   \<and> interpolate [[0, 1], [0, 1]] 1 0 \<noteq> Inr ([[0, 1], [0, 1]] ! 0 ! 1)"
  by (simp add: square_def interpolate_def at2_def go_int_def Let_def)

section \<open>Properties: magnitude-drop scaling\<close>

text \<open>
  Claim C9. With the percentage \<open>p\<close> of the event: if \<open>0 < p \<le> 100\<close>, every entry \<open>I\<close> of
  the intensity matrix becomes \<open>(p/100) * I + (1 - p/100)\<close>; if \<open>p > 100\<close>, the percentage
  is set to 100, a warning is printed, the run goes on and the matrix is unchanged; if
  \<open>p \<le> 0\<close>, nothing changes.
\<close>

theorem main_mag_drop_cases:
  "(0 < PercentMagDrop ev \<and> PercentMagDrop ev \<le> 100 \<longrightarrow>
      main_mag_drop (ev, out) =
        (ev\<lparr>IntensityMatrix :=
              map (map (\<lambda>v. PercentMagDrop ev / 100 * v + (1 - PercentMagDrop ev / 100)))
                (IntensityMatrix ev)\<rparr>, out))
   \<and> (100 < PercentMagDrop ev \<longrightarrow>
      main_mag_drop (ev, out) =
        (ev\<lparr>PercentMagDrop := 100\<rparr>, out @ [PercentMagDropTooLarge (PercentMagDrop ev)]))
   \<and> (PercentMagDrop ev \<le> 0 \<longrightarrow> main_mag_drop (ev, out) = (ev, out))"
proof (intro conjI impI)
  assume "0 < PercentMagDrop ev \<and> PercentMagDrop ev \<le> 100"
  then show "main_mag_drop (ev, out) =
        (ev\<lparr>IntensityMatrix :=
              map (map (\<lambda>v. PercentMagDrop ev / 100 * v + (1 - PercentMagDrop ev / 100)))
                (IntensityMatrix ev)\<rparr>, out)"
    by (simp add: main_mag_drop_def Let_def mult.commute)
next
  assume "100 < PercentMagDrop ev"
  then show "main_mag_drop (ev, out) =
        (ev\<lparr>PercentMagDrop := 100\<rparr>, out @ [PercentMagDropTooLarge (PercentMagDrop ev)])"
    by (simp add: main_mag_drop_def Let_def)
next
  assume "PercentMagDrop ev \<le> 0"
  then show "main_mag_drop (ev, out) = (ev, out)"
    by (simp add: main_mag_drop_def)
qed

theorem main_mag_drop_cases_witness:
  "IntensityMatrix (fst (main_mag_drop (sample_event 50, []))) = [[1 / 2, 1], [3 / 2, 5 / 2]]
   \<and> snd (main_mag_drop (sample_event 50, [])) = []
   \<and> main_mag_drop (sample_event 150, []) = (sample_event 100, [PercentMagDropTooLarge 150])
   \<and> main_mag_drop (sample_event (- 1), []) = (sample_event (- 1), [])"
  using main_mag_drop_cases [of "sample_event 50" "[]"]
    main_mag_drop_cases [of "sample_event 150" "[]"]
    main_mag_drop_cases [of "sample_event (- 1)" "[]"]
  by (simp add: sample_event_def)

section \<open>Properties: the Fresnel weight kernel\<close>

lemma collect_map_Inr:
  assumes "\<And>x. x \<in> set xs \<Longrightarrow> g x = Inr (f x)"
  shows "collect (map g xs) = Inr (map f xs)"
  using assms by (induction xs) simp_all

lemma assign_loop_snoc:
  "assign_loop f (ms @ [m]) row =
     bind (assign_loop f ms row) (\<lambda>r. if m < length r then Inr (r[m := f m]) else Inl Panic)"
  by (induction ms arbitrary: row) (simp_all add: bind_def)

lemma assign_loop_upt:
  "n \<le> length row \<Longrightarrow> assign_loop f [0..<n] row = Inr (map f [0..<n] @ drop n row)"
proof (induction n)
  case 0
  then show ?case by simp
next
  case (Suc n)
  then have n: "n < length row" by simp
  have "(map f [0..<n] @ drop n row)[n := f n] = map f [0..<n] @ f n # drop (Suc n) row"
    using n by (simp add: list_update_append Cons_nth_drop_Suc [symmetric])
  with Suc n show ?case
    by (simp add: assign_loop_snoc bind_def)
qed

lemma Linspace_nth:
  assumes "2 \<le> n"
  shows "Linspace a b n = map (\<lambda>m. a + real m * ((b - a) / of_int (n - 1))) [0..<nat n]"
proof (rule nth_equalityI)
  show "length (Linspace a b n)
        = length (map (\<lambda>m. a + real m * ((b - a) / of_int (n - 1))) [0..<nat n])"
    using assms by (simp add: Linspace_def Let_def)
next
  fix i assume "i < length (Linspace a b n)"
  then have i: "i < nat n" using assms by (simp add: Linspace_def Let_def)
  then have "[0..n - 1] ! i = int i" by (simp add: nth_upto)
  with i show "Linspace a b n ! i
        = map (\<lambda>m. a + real m * ((b - a) / of_int (n - 1))) [0..<nat n] ! i"
    using assms by (simp add: Linspace_def Let_def)
qed

lemma Linspace_grid:
  assumes "2 \<le> N"
  shows "Linspace (- L / 2) (L / 2 - L / of_int N) N
         = map (\<lambda>m. - L / 2 + real m * (L / of_int N)) [0..<nat N]"
proof -
  have "(L / 2 - L / of_int N - (- L / 2)) / of_int (N - 1) = L / real_of_int N"
    using assms by (simp add: field_simps)
  then show ?thesis by (simp add: Linspace_nth [OF assms])
qed


lemma Complex_as_spec:
  "Complex t 0 * exp (Complex 0 y) * Complex a (- b)
   = of_real t * exp (\<i> * of_real y) * (of_real a - \<i> * of_real b)"
  by (simp add: Complex_eq)

text \<open>
  Claim C1. For \<open>N \<ge> 10\<close> and positive \<open>L\<close>, \<open>Z\<close>, \<open>\<lambda>\<close>, the weight-row builder returns
  a vector \<open>w\<close> of length \<open>N\<close>. With \<open>dx = L/N\<close>, \<open>W = 1/(2 dx)\<close>, \<open>\<delta> = dx\<close>,
  \<open>k = 2\<pi>/\<lambda>\<close> and \<open>x[m] = -L/2 + m dx\<close>, which is the array that
  \<open>Linspace (-L/2) (L/2 - dx) N\<close> builds, and with \<open>t1\<close>, \<open>t2\<close>, \<open>t4\<close>, \<open>t5\<close>, \<open>t6\<close>,
  \<open>slide\<close>, \<open>u1\<close>, \<open>u2\<close> as in the spec and \<open>(S1, C1)\<close>, \<open>(S2, C2)\<close> the values of the
  Fresnel integrals at \<open>u1 t6\<close> and \<open>u2 t6\<close>, every entry is
  \<open>w[m] = t4 exp(i slide\<^sup>2 t5) ((C2 - C1) - i (S2 - S1))\<close>. The function computing the
  Fresnel integrals is arbitrary.
\<close>

theorem fresnelWeightsTopRow_entries:
  assumes N: "10 \<le> N" and L: "0 < L" and Z: "0 < Z" and lam: "0 < lam"
  shows "\<exists>w. fresnelWeightsTopRow fresnel N L Z lam = Inr w \<and> length w = nat N \<and>
     (let dx = L / of_int N;
          W = 1 / (2 * dx);
          delta = dx;
          k = 2 * pi / lam;
          x = (\<lambda>m. - L / 2 + real m * dx);
          t1 = - pi * sqrt (2 * Z / k) * W;
          t2 = sqrt (k / (2 * Z));
          t4 = (delta / pi) * sqrt (k / (2 * Z)) * sqrt (pi / 2);
          t5 = k / (2 * Z);
          t6 = sqrt (2 / pi)
      in Linspace (- L / 2) (L / 2 - dx) N = map x [0..<nat N] \<and>
         (\<forall>m < nat N.
            let slide = x m - x 0;
                u1 = t1 - t2 * slide;
                u2 = - t1 - t2 * slide;
                (S1, C1) = fresnel (u1 * t6);
                (S2, C2) = fresnel (u2 * t6)
            in w ! m = of_real t4 * exp (\<i> * of_real (slide\<^sup>2 * t5))
                         * (of_real (C2 - C1) - \<i> * of_real (S2 - S1))))"
proof -
  have N2: "2 \<le> N" and N0: "\<not> N < 0" using N by simp_all
  define X where "X = Linspace (- L / 2) (L / 2 - L / of_int N) N"
  have grid: "X = map (\<lambda>m. - L / 2 + real m * (L / of_int N)) [0..<nat N]"
    unfolding X_def by (rule Linspace_grid [OF N2])
  have len: "length X = nat N"
    by (simp add: grid)
  have nth: "X ! m = - L / 2 + real m * (L / of_int N)" if "m < nat N" for m
    using that by (simp add: grid)
  have zero: "0 < nat N" using N by simp
  define phi where "phi = (\<lambda>m.
     case fresnel ((- pi * sqrt (2 * Z / (pi * 2 / lam)) * (1 / (2 * (L / of_int N)))
                     - sqrt (pi * 2 / lam / (2 * Z)) * (X ! m - X ! 0)) * sqrt (2 / pi)) of
       (S1x, C1x) \<Rightarrow>
     case fresnel ((- (- pi * sqrt (2 * Z / (pi * 2 / lam)) * (1 / (2 * (L / of_int N))))
                     - sqrt (pi * 2 / lam / (2 * Z)) * (X ! m - X ! 0)) * sqrt (2 / pi)) of
       (S2x, C2x) \<Rightarrow>
     Complex (L / of_int N / pi * sqrt (pi * 2 / lam / (2 * Z)) * sqrt (pi / 2)) 0
       * exp (Complex 0 ((X ! m - X ! 0) * (X ! m - X ! 0) * (pi * 2 / lam / (2 * Z))))
       * Complex (C2x - C1x) (- (S2x - S1x)))"
  have "fresnelWeightsTopRow fresnel N L Z lam
        = assign_loop phi [0..<length X] (replicate (nat N) 0)"
    unfolding fresnelWeightsTopRow_def Let_def phi_def X_def [symmetric]
    using N0 by (simp only: if_False)
  then have res: "fresnelWeightsTopRow fresnel N L Z lam = Inr (map phi [0..<nat N])"
    by (simp add: len assign_loop_upt)
  have entry: "phi m =
     (case fresnel ((- pi * sqrt (2 * Z / (2 * pi / lam)) * (1 / (2 * (L / of_int N)))
                     - sqrt (2 * pi / lam / (2 * Z))
                       * (- L / 2 + real m * (L / of_int N) - (- L / 2 + real 0 * (L / of_int N))))
                   * sqrt (2 / pi)) of
       (S1, C1) \<Rightarrow>
     case fresnel ((- (- pi * sqrt (2 * Z / (2 * pi / lam)) * (1 / (2 * (L / of_int N))))
                     - sqrt (2 * pi / lam / (2 * Z))
                       * (- L / 2 + real m * (L / of_int N) - (- L / 2 + real 0 * (L / of_int N))))
                   * sqrt (2 / pi)) of
       (S2, C2) \<Rightarrow>
     of_real (L / of_int N / pi * sqrt (2 * pi / lam / (2 * Z)) * sqrt (pi / 2))
       * exp (\<i> * of_real ((- L / 2 + real m * (L / of_int N)
                              - (- L / 2 + real 0 * (L / of_int N)))\<^sup>2
                           * (2 * pi / lam / (2 * Z))))
       * (of_real (C2 - C1) - \<i> * of_real (S2 - S1)))"
    if "m < nat N" for m
    unfolding phi_def nth [OF that] nth [OF zero] Complex_as_spec power2_eq_square
      mult.commute [of pi 2] ..
  show ?thesis
    unfolding res Let_def X_def [symmetric]
    using entry grid by (simp only: sum.inject length_map length_upt nth_map_upt
        diff_zero add_0 simp_thms ex_simps) (auto split: prod.splits)
qed


theorem fresnelWeightsTopRow_entries_witness:
  "(10::int) \<le> 10 \<and> (0::real) < 1 \<and>
   (case fresnelWeightsTopRow (\<lambda>x. (0, x)) 10 1 1 1 of
      Inl e \<Rightarrow> False
    | Inr w \<Rightarrow> length w = 10)"
  using fresnelWeightsTopRow_entries [of 10 1 1 1 "\<lambda>x. (0, x)"] by auto

lemma fresnelWeightsTopRow_length:
  assumes "2 \<le> N"
  shows "\<exists>w. fresnelWeightsTopRow fresnel N L Z lam = Inr w \<and> length w = nat N"
proof -
  have "length (Linspace (- L / 2) (L / 2 - L / of_int N) N) = nat N"
    by (simp add: Linspace_nth [OF assms])
  then show ?thesis
    using assms unfolding fresnelWeightsTopRow_def Let_def
    by (simp add: assign_loop_upt)
qed

lemma toeplitz_rows:
  assumes "length w = nat N"
  shows "collect (map (\<lambda>row. collect (map (\<lambda>col. at1 w (AbsInt (col - row))) [0..N - 1]))
                   [0..N - 1])
         = Inr (map (\<lambda>row. map (\<lambda>col. w ! nat \<bar>col - row\<bar>) [0..N - 1]) [0..N - 1])"
proof (rule collect_map_Inr)
  fix row assume "row \<in> set [0..N - 1]"
  then have row: "0 \<le> row" "row < N" by simp_all
  show "collect (map (\<lambda>col. at1 w (AbsInt (col - row))) [0..N - 1])
        = Inr (map (\<lambda>col. w ! nat \<bar>col - row\<bar>) [0..N - 1])"
  proof (rule collect_map_Inr)
    fix col assume "col \<in> set [0..N - 1]"
    then have col: "0 \<le> col" "col < N" by simp_all
    have "AbsInt (col - row) = \<bar>col - row\<bar>" by (simp add: AbsInt_def)
    moreover have "\<bar>col - row\<bar> < N" "0 \<le> N" using row col by linarith+
    ultimately show "at1 w (AbsInt (col - row)) = Inr (w ! nat \<bar>col - row\<bar>)"
      using assms by (simp add: at1_def)
  qed
qed

text \<open>
  Claim C2. For \<open>N \<ge> 10\<close> and positive \<open>L\<close>, \<open>Z\<close>, \<open>\<lambda>\<close>, the matrix built by
  \<open>fresnelWeights\<close> is \<open>N \<times> N\<close> and its entry \<open>(i, j)\<close> is exactly the entry \<open>|i - j|\<close>
  of the top row; so the matrix is symmetric and constant along every diagonal.
\<close>

theorem fresnelWeights_symmetric_toeplitz:
  assumes N: "10 \<le> N" and L: "0 < L" and Z: "0 < Z" and lam: "0 < lam"
  shows "\<exists>w Wm. fresnelWeightsTopRow fresnel N L Z lam = Inr w
           \<and> fresnelWeights fresnel N L Z lam = Inr Wm
           \<and> length Wm = nat N
           \<and> (\<forall>i < nat N. length (Wm ! i) = nat N)
           \<and> (\<forall>i < nat N. \<forall>j < nat N.
                 Wm ! i ! j = w ! nat \<bar>int i - int j\<bar>
                 \<and> Wm ! i ! j = Wm ! j ! i
                 \<and> (i + 1 < nat N \<and> j + 1 < nat N \<longrightarrow> Wm ! (i + 1) ! (j + 1) = Wm ! i ! j))"
proof -
  from N have "2 \<le> N" by simp
  from fresnelWeightsTopRow_length [OF this] obtain w
    where w: "fresnelWeightsTopRow fresnel N L Z lam = Inr w" and len: "length w = nat N"
    by blast
  define Wm where "Wm = map (\<lambda>row. map (\<lambda>col. w ! nat \<bar>col - row\<bar>) [0..N - 1]) [0..N - 1]"
  have full: "fresnelWeights fresnel N L Z lam = Inr Wm"
    by (simp add: fresnelWeights_def w bind_def toeplitz_rows [OF len] Wm_def)
  have entry: "Wm ! i ! j = w ! nat \<bar>int i - int j\<bar>" if "i < nat N" "j < nat N" for i j
  proof -
    have "\<bar>int j - int i\<bar> = \<bar>int i - int j\<bar>" by linarith
    with that show ?thesis by (simp add: Wm_def nth_upto)
  qed
  have rows: "length Wm = nat N" and cols: "\<forall>i < nat N. length (Wm ! i) = nat N"
    by (simp_all add: Wm_def)
  have sym: "Wm ! i ! j = Wm ! j ! i" if "i < nat N" "j < nat N" for i j
  proof -
    have "\<bar>int j - int i\<bar> = \<bar>int i - int j\<bar>" by linarith
    with that show ?thesis by (simp add: entry)
  qed
  have diag: "Wm ! (i + 1) ! (j + 1) = Wm ! i ! j" if "i + 1 < nat N" "j + 1 < nat N" for i j
  proof -
    have "\<bar>int (i + 1) - int (j + 1)\<bar> = \<bar>int i - int j\<bar>" by simp
    with that show ?thesis by (simp add: entry)
  qed
  from w full rows cols entry sym diag show ?thesis by blast
qed

theorem fresnelWeights_symmetric_toeplitz_witness:
  "(10::int) \<le> 10 \<and> (0::real) < 1 \<and>
   (case fresnelWeights (\<lambda>x. (0, x)) 10 1 1 1 of
      Inl e \<Rightarrow> False
    | Inr Wm \<Rightarrow> length Wm = 10 \<and> Wm ! 2 ! 7 = Wm ! 7 ! 2 \<and> Wm ! 3 ! 8 = Wm ! 2 ! 7)"
proof -
  from fresnelWeights_symmetric_toeplitz [of 10 1 1 1 "\<lambda>x. (0, x)"] obtain w Wm
    where Wm: "fresnelWeights (\<lambda>x. (0, x)) 10 1 1 1 = Inr Wm" "length Wm = nat 10"
      and all: "\<forall>i < nat 10. \<forall>j < nat 10.
                 Wm ! i ! j = w ! nat \<bar>int i - int j\<bar>
                 \<and> Wm ! i ! j = Wm ! j ! i
                 \<and> (i + 1 < nat 10 \<and> j + 1 < nat 10 \<longrightarrow> Wm ! (i + 1) ! (j + 1) = Wm ! i ! j)"
    by auto
  from all have "Wm ! 2 ! 7 = Wm ! 7 ! 2" by simp
  moreover from all have "Wm ! (2 + 1) ! (7 + 1) = Wm ! 2 ! 7" by simp
  ultimately show ?thesis using Wm by simp
qed

section \<open>Properties: the observation chord\<close>

lemma go_int_of_int [simp]: "go_int (of_int k) = k"
  by (simp add: go_int_def)

lemma go_round_nonneg: "0 \<le> x \<Longrightarrow> go_int (go_round x) = round x"
  by (simp add: go_round_def round_def)

lemma upto_as_upt: "[0..n - 1] = map int [0..<nat n]"
proof (rule nth_equalityI)
  show "length [0..n - 1] = length (map int [0..<nat n])" by simp
next
  fix i assume "i < length [0..n - 1]"
  then show "[0..n - 1] ! i = map int [0..<nat n] ! i" by (simp add: nth_upto)
qed

lemma unit_direction:
  fixes a b :: real
  assumes "a \<noteq> 0 \<or> b \<noteq> 0"
  defines "l \<equiv> sqrt (a * a + b * b)"
  shows "0 < l" and "(a / l) * (a / l) + (b / l) * (b / l) = 1"
proof -
  have pos: "0 < a * a + b * b"
    using assms(1) by (simp add: sum_squares_gt_zero_iff)
  then show l: "0 < l" by (simp add: l_def)
  have "l * l = a * a + b * b" using pos by (simp add: l_def)
  then have "(a * a + b * b) / (l * l) = 1" using l assms(1) by simp
  then show "(a / l) * (a / l) + (b / l) * (b / l) = 1"
    by (simp add: add_divide_distrib)
qed

lemma step_distance:
  fixes u v k :: real
  assumes "u * u + v * v = 1" "0 \<le> k"
  shows "sqrt (k * k * u * u + k * k * v * v) = k"
proof -
  have "k * k * u * u + k * k * v * v = (k * k) * (u * u + v * v)" by (simp add: algebra_simps)
  also have "\<dots> = k\<^sup>2" using assms(1) by (simp add: power2_eq_square)
  finally show ?thesis using assms(2) by simp
qed

lemma step_spacing:
  fixes u v k s t :: real
  assumes "u * u + v * v = 1"
  shows "sqrt ((s + (k + 1) * u - (s + k * u))\<^sup>2 + (t + (k + 1) * v - (t + k * v))\<^sup>2) = 1"
proof -
  have "(s + (k + 1) * u - (s + k * u))\<^sup>2 + (t + (k + 1) * v - (t + k * v))\<^sup>2 = u * u + v * v"
    by (simp add: algebra_simps power2_eq_square)
  then show ?thesis using assms by simp
qed


lemma sample_list:
  fixes sx sy ex ey :: real
  assumes "(sx, sy) \<noteq> (ex, ey)"
  defines "l \<equiv> sqrt ((ex - sx) * (ex - sx) + (ey - sy) * (ey - sy))"
  shows "map (\<lambda>i. let k = of_int i;
                      xVal = sx + k * ((ex - sx) / l);
                      yVal = sy + k * ((ey - sy) / l);
                      distanceFromStart =
                        sqrt (k * k * ((ex - sx) / l) * ((ex - sx) / l)
                              + k * k * ((ey - sy) / l) * ((ey - sy) / l))
                  in f xVal yVal distanceFromStart)
             [0..go_int (go_round l) - 1]
         = map (\<lambda>i. f (sx + real i * ((ex - sx) / l)) (sy + real i * ((ey - sy) / l)) (real i))
             [0..<nat (round l)]"
proof -
  have d: "ex - sx \<noteq> 0 \<or> ey - sy \<noteq> 0" using assms(1) by auto
  have u: "((ex - sx) / l) * ((ex - sx) / l) + ((ey - sy) / l) * ((ey - sy) / l) = 1"
    and l: "0 < l"
    unfolding l_def by (rule unit_direction [OF d])+
  have r: "go_int (go_round l) = round l" using l by (simp add: go_round_nonneg)
  have sd: "sqrt (real i * real i * ((ex - sx) / l) * ((ex - sx) / l)
                  + real i * real i * ((ey - sy) / l) * ((ey - sy) / l)) = real i" for i
    by (rule step_distance [OF u]) simp
  show ?thesis
    unfolding r upto_as_upt Let_def map_map comp_def of_int_of_nat_eq sd ..
qed


text \<open>
  Claim C6. For a path whose start and end differ, with
  \<open>Lpath = sqrt ((EndX - StartX)\<^sup>2 + (EndY - StartY)\<^sup>2)\<close>, the sampler emits exactly
  \<open>round Lpath\<close> samples; sample \<open>i\<close> is
  \<open>(StartX + i dx / Lpath, StartY + i dy / Lpath)\<close> with recorded distance \<open>i\<close>;
  consecutive samples are at Euclidean distance 1 and their recorded distances increase
  strictly. The sampler of package main appends the same samples to the event.
\<close>

theorem sampler_unit_steps:
  assumes "(StartX p, StartY p) \<noteq> (EndX p, EndY p)"
  shows "let dx = EndX p - StartX p;
             dy = EndY p - StartY p;
             Lpath = sqrt (dx\<^sup>2 + dy\<^sup>2);
             n = nat (round Lpath);
             pts = SamplePoints (ComputeSamplePoints p)
         in length pts = n
            \<and> (\<forall>i < n. pts ! i = \<lparr>X = StartX p + real i * dx / Lpath,
                                   Y = StartY p + real i * dy / Lpath,
                                   DistanceFromStart = real i\<rparr>)
            \<and> (\<forall>i. i + 1 < n \<longrightarrow>
                   sqrt ((X (pts ! (i + 1)) - X (pts ! i))\<^sup>2
                         + (Y (pts ! (i + 1)) - Y (pts ! i))\<^sup>2) = 1
                   \<and> DistanceFromStart (pts ! i) < DistanceFromStart (pts ! (i + 1)))
            \<and> (PathStart e = (StartX p, StartY p) \<and> PathEnd e = (EndX p, EndY p) \<longrightarrow>
                 PathSamplePoints (computePathPoints e)
                 = PathSamplePoints e @ map (\<lambda>q. (X q, Y q, DistanceFromStart q)) pts)"
proof -
  define dx where "dx = EndX p - StartX p"
  define dy where "dy = EndY p - StartY p"
  define l where "l = sqrt (dx * dx + dy * dy)"
  define n where "n = nat (round l)"
  define pts where "pts = SamplePoints (ComputeSamplePoints p)"
  have d: "dx \<noteq> 0 \<or> dy \<noteq> 0" using assms by (auto simp: dx_def dy_def)
  have u: "(dx / l) * (dx / l) + (dy / l) * (dy / l) = 1"
    unfolding l_def by (rule unit_direction [OF d])
  have pts: "pts = map (\<lambda>i. \<lparr>X = StartX p + real i * (dx / l), Y = StartY p + real i * (dy / l),
                               DistanceFromStart = real i\<rparr>) [0..<n]"
    unfolding pts_def ComputeSamplePoints_def Let_def n_def l_def dx_def dy_def
    using sample_list [OF assms, of "\<lambda>x y d. \<lparr>X = x, Y = y, DistanceFromStart = d\<rparr>"]
    by (simp add: Let_def)
  have len: "length pts = n" by (simp add: pts)
  have nth: "pts ! i = \<lparr>X = StartX p + real i * dx / l, Y = StartY p + real i * dy / l,
                         DistanceFromStart = real i\<rparr>" if "i < n" for i
    using that by (simp add: pts)
  have spacing: "sqrt ((X (pts ! (i + 1)) - X (pts ! i))\<^sup>2
                       + (Y (pts ! (i + 1)) - Y (pts ! i))\<^sup>2) = 1
                 \<and> DistanceFromStart (pts ! i) < DistanceFromStart (pts ! (i + 1))"
    if "i + 1 < n" for i
  proof -
    from that have i: "i < n" by simp
    have "sqrt ((StartX p + (real i + 1) * (dx / l) - (StartX p + real i * (dx / l)))\<^sup>2
                + (StartY p + (real i + 1) * (dy / l) - (StartY p + real i * (dy / l)))\<^sup>2) = 1"
      by (rule step_spacing [OF u])
    then show ?thesis
      using that i by (simp add: pts add.commute)
  qed
  have main: "PathSamplePoints (computePathPoints e)
              = PathSamplePoints e @ map (\<lambda>q. (X q, Y q, DistanceFromStart q)) pts"
    if "PathStart e = (StartX p, StartY p) \<and> PathEnd e = (EndX p, EndY p)"
    unfolding computePathPoints_def Let_def pts n_def l_def dx_def dy_def
    using that sample_list [OF assms, of "\<lambda>x y d. (x, y, d)"]
    by (simp add: Let_def comp_def)
  have "sqrt (dx\<^sup>2 + dy\<^sup>2) = l" by (simp add: l_def power2_eq_square)
  with len nth spacing main show ?thesis
    unfolding Let_def dx_def [symmetric] dy_def [symmetric] n_def [symmetric] pts_def [symmetric]
    by (simp add: n_def)
qed

theorem sampler_unit_steps_witness:
  "(StartX diagonal_path, StartY diagonal_path) \<noteq> (EndX diagonal_path, EndY diagonal_path)
   \<and> length (SamplePoints (ComputeSamplePoints diagonal_path)) = 5
   \<and> SamplePoints (ComputeSamplePoints diagonal_path) ! 2
       = \<lparr>X = 6 / 5, Y = 8 / 5, DistanceFromStart = 2\<rparr>"
proof -
  have s: "sqrt 25 = 5" by (rule real_sqrt_unique) simp_all
  have r: "round (5 :: real) = 5" by (simp add: round_def)
  show ?thesis
    using sampler_unit_steps [of diagonal_path]
    by (simp add: diagonal_path_def Let_def s r)
qed

lemma edge_loop_sorted:
  assumes "edge_loop m pts ans c = Inr es"
    and "sorted (map (\<lambda>p. snd (snd p)) pts)"
    and "sorted ans"
    and "\<forall>a \<in> set ans. \<forall>p \<in> set pts. a \<le> snd (snd p)"
  shows "sorted es"
  using assms
proof (induction pts arbitrary: ans c)
  case Nil
  then show ?case by simp
next
  case (Cons pt pts)
  from Cons.prems(1) obtain v where v: "interpolate m (fst pt) (fst (snd pt)) = Inr v"
    by (cases "interpolate m (fst pt) (fst (snd pt))") simp_all
  have tail: "sorted (map (\<lambda>p. snd (snd p)) pts)"
    using Cons.prems(2) by simp
  show ?case
  proof (cases "(if v > 0 then 1 else v) = c")
    case True
    with Cons.prems(1) v
    have run: "edge_loop m pts (ans @ [snd (snd pt)]) (1 - c) = Inr es"
      by (simp add: Let_def)
    have s: "sorted (ans @ [snd (snd pt)])"
      using Cons.prems(3,4) by (simp add: sorted_append)
    have b: "\<forall>a \<in> set (ans @ [snd (snd pt)]). \<forall>p \<in> set pts. a \<le> snd (snd p)"
      using Cons.prems(2,4) by auto
    from Cons.IH [OF run tail s b] show ?thesis .
  next
    case False
    with Cons.prems(1) v have run: "edge_loop m pts ans c = Inr es"
      by (simp add: Let_def)
    have b: "\<forall>a \<in> set ans. \<forall>p \<in> set pts. a \<le> snd (snd p)"
      using Cons.prems(4) by simp
    from Cons.IH [OF run tail Cons.prems(3) b] show ?thesis .
  qed
qed

lemma edge_loop_skip_dark:
  assumes "\<forall>p \<in> set ps. interpolate m (fst p) (fst (snd p)) = Inr 0"
  shows "edge_loop m (ps @ qs) ans 1 = edge_loop m qs ans 1"
  using assms by (induction ps) (simp_all add: Let_def)

lemma edge_loop_skip_bright:
  assumes "\<forall>p \<in> set ps. \<exists>v > 0. interpolate m (fst p) (fst (snd p)) = Inr v"
  shows "edge_loop m (ps @ qs) ans 0 = edge_loop m qs ans 0"
  using assms by (induction ps) (auto simp add: Let_def)

lemma edge_loop_single_run:
  assumes dark: "\<forall>p \<in> set (P0 @ P2). interpolate m (fst p) (fst (snd p)) = Inr 0"
    and bright: "\<forall>p \<in> set P1. \<exists>v > 0. interpolate m (fst p) (fst (snd p)) = Inr v"
    and leaves: "P1 = [] \<or> P2 \<noteq> []"
  shows "edge_loop m (P0 @ P1 @ P2) [] 1
         = Inr (if P1 = [] then [] else [snd (snd (hd P1)), snd (snd (hd P2))])"
proof -
  have d0: "\<forall>p \<in> set P0. interpolate m (fst p) (fst (snd p)) = Inr 0"
    and d2: "\<forall>p \<in> set P2. interpolate m (fst p) (fst (snd p)) = Inr 0"
    using dark by simp_all
  have skip: "edge_loop m (P0 @ P1 @ P2) [] 1 = edge_loop m (P1 @ P2) [] 1"
    by (rule edge_loop_skip_dark [OF d0])
  show ?thesis
  proof (cases P1)
    case Nil
    have "edge_loop m (P2 @ []) [] 1 = edge_loop m [] [] 1"
      by (rule edge_loop_skip_dark [OF d2])
    with Nil skip show ?thesis by simp
  next
    case (Cons p P1')
    with leaves obtain q P2' where P2: "P2 = q # P2'" by (cases P2) auto
    from bright Cons obtain v where v: "0 < v" "interpolate m (fst p) (fst (snd p)) = Inr v"
      by auto
    have b': "\<forall>p \<in> set P1'. \<exists>v > 0. interpolate m (fst p) (fst (snd p)) = Inr v"
      using bright Cons by simp
    have q: "interpolate m (fst q) (fst (snd q)) = Inr 0" using d2 P2 by simp
    have d2': "\<forall>p \<in> set P2'. interpolate m (fst p) (fst (snd p)) = Inr 0" using d2 P2 by simp
    have "edge_loop m (P1 @ P2) [] 1 = edge_loop m (P1' @ P2) [snd (snd p)] 0"
      using Cons v by (simp add: Let_def)
    also have "\<dots> = edge_loop m P2 [snd (snd p)] 0"
      by (rule edge_loop_skip_bright [OF b'])
    also have "\<dots> = edge_loop m (P2' @ []) [snd (snd p), snd (snd q)] 1"
      using P2 q by (simp add: Let_def)
    also have "\<dots> = edge_loop m [] [snd (snd p), snd (snd q)] 1"
      by (rule edge_loop_skip_dark [OF d2'])
    finally show ?thesis using skip Cons P2 by simp
  qed
qed

lemma sorted_sample_distances:
  "sorted (map DistanceFromStart (SamplePoints (ComputeSamplePoints p)))"
proof (cases "(StartX p, StartY p) = (EndX p, EndY p)")
  case True
  then have "SamplePoints (ComputeSamplePoints p) = []"
    by (simp add: ComputeSamplePoints_def Let_def go_round_def)
  then show ?thesis by simp
next
  case False
  have "map DistanceFromStart (SamplePoints (ComputeSamplePoints p))
        = map real [0..<nat (round (sqrt ((EndX p - StartX p) * (EndX p - StartX p)
                                       + (EndY p - StartY p) * (EndY p - StartY p))))]"
    unfolding ComputeSamplePoints_def Let_def
    using sample_list [OF False, of "\<lambda>x y d. \<lparr>X = x, Y = y, DistanceFromStart = d\<rparr>"]
    by (simp add: Let_def comp_def)
  moreover have "sorted (map real [0..<k])" for k
    by (simp add: sorted_map sorted_wrt_iff_nth_less)
  ultimately show ?thesis by simp
qed


text \<open>
  Claim C5, as the code has it. The edge finder reports recorded distances of samples in
  the order of the samples: when the recorded distances of the samples are non-decreasing
  (those of the sampler are), so is the list of edges, in package main and in package
  lightcurve. In package main the mask is positive inside the occulter; when the samples
  with a positive interpolated mask value form one run \<open>P1\<close>, between samples \<open>P0\<close> and
  \<open>P2\<close> where the value is zero, and the run is empty or followed by a further sample,
  the edges are none or two: the first sample of the run and the first sample after it.
\<close>

theorem edges_nondecreasing_and_counted:
  "(sorted (map (\<lambda>q. snd (snd q)) (PathSamplePoints e)) \<and> FindEdgesInGeometricShadow e = Inr es
      \<longrightarrow> sorted es)
   \<and> (sorted (map DistanceFromStart (SamplePoints p))
        \<and> lightcurve_FindEdgesInGeometricShadow g p = Inr (es', p')
      \<longrightarrow> sorted es')
   \<and> (PathSamplePoints e = P0 @ P1 @ P2
        \<and> (\<forall>q \<in> set (P0 @ P2). interpolate (GeometricMatrix e) (fst q) (fst (snd q)) = Inr 0)
        \<and> (\<forall>q \<in> set P1. \<exists>v > 0. interpolate (GeometricMatrix e) (fst q) (fst (snd q)) = Inr v)
        \<and> (P1 = [] \<or> P2 \<noteq> [])
      \<longrightarrow> FindEdgesInGeometricShadow e
            = Inr (if P1 = [] then [] else [snd (snd (hd P1)), snd (snd (hd P2))]))"
proof (intro conjI impI)
  assume "sorted (map (\<lambda>q. snd (snd q)) (PathSamplePoints e))
            \<and> FindEdgesInGeometricShadow e = Inr es"
  then show "sorted es"
    using edge_loop_sorted [of "GeometricMatrix e" "PathSamplePoints e" "[]" 1 es]
    by (simp add: FindEdgesInGeometricShadow_def)
next
  assume a: "sorted (map DistanceFromStart (SamplePoints p))
            \<and> lightcurve_FindEdgesInGeometricShadow g p = Inr (es', p')"
  define q where "q = (if length (SamplePoints p) = 0 then ComputeSamplePoints p else p)"
  have s: "sorted (map DistanceFromStart (SamplePoints q))"
    using a sorted_sample_distances [of p] by (simp add: q_def)
  from a have "edge_loop g (map (\<lambda>pt. (X pt, Y pt, DistanceFromStart pt)) (SamplePoints q)) [] 1
               = Inr es'"
    by (auto simp: lightcurve_FindEdgesInGeometricShadow_def Let_def bind_def q_def
        split: sum.splits)
  from edge_loop_sorted [OF this] s show "sorted es'"
    by (simp add: comp_def)
next
  assume "PathSamplePoints e = P0 @ P1 @ P2
        \<and> (\<forall>q \<in> set (P0 @ P2). interpolate (GeometricMatrix e) (fst q) (fst (snd q)) = Inr 0)
        \<and> (\<forall>q \<in> set P1. \<exists>v > 0. interpolate (GeometricMatrix e) (fst q) (fst (snd q)) = Inr v)
        \<and> (P1 = [] \<or> P2 \<noteq> [])"
  then show "FindEdgesInGeometricShadow e
            = Inr (if P1 = [] then [] else [snd (snd (hd P1)), snd (snd (hd P2))])"
    using edge_loop_single_run [of P0 P2 "GeometricMatrix e" P1]
    by (simp add: FindEdgesInGeometricShadow_def)
qed

lemma interpolate_lit_row:
  "interpolate occulter_lit 0 2 = Inr 0" "interpolate occulter_lit 1 2 = Inr 0"
  "interpolate occulter_lit 2 2 = Inr 1" "interpolate occulter_lit 3 2 = Inr 0"
  by (simp_all add: occulter_lit_def interpolate_def at2_def go_int_def Let_def)

lemma row_path_samples:
  "SamplePoints (ComputeSamplePoints row_path)
   = [\<lparr>X = 0, Y = 2, DistanceFromStart = 0\<rparr>, \<lparr>X = 1, Y = 2, DistanceFromStart = 1\<rparr>,
      \<lparr>X = 2, Y = 2, DistanceFromStart = 2\<rparr>, \<lparr>X = 3, Y = 2, DistanceFromStart = 3\<rparr>]"
proof -
  have s: "sqrt 16 = 4" by (rule real_sqrt_unique) simp_all
  have r: "go_int (go_round 4) = 4" by (simp add: go_round_def go_int_def)
  have u: "[0..3::int] = [0, 1, 2, 3]" by (simp add: upto_rec1)
  show ?thesis
    by (simp add: ComputeSamplePoints_def row_path_def Let_def s r u)
qed

theorem edges_nondecreasing_and_counted_witness:
  "sorted (map (\<lambda>q. snd (snd q)) (PathSamplePoints (event_with occulter_lit row_chord)))
   \<and> FindEdgesInGeometricShadow (event_with occulter_lit row_chord) = Inr [2, 3]
   \<and> sorted (map DistanceFromStart (SamplePoints row_path))
   \<and> lightcurve_FindEdgesInGeometricShadow occulter_lit row_path
       = Inr ([2, 3], ComputeSamplePoints row_path)
   \<and> sorted [2, 3 :: real]"
proof -
  have a: "FindEdgesInGeometricShadow (event_with occulter_lit row_chord) = Inr [2, 3]"
    using edges_nondecreasing_and_counted
      [where e = "event_with occulter_lit row_chord" and es = "[2, 3]"
         and ?P0.0 = "[(0, 2, 0), (1, 2, 1)]" and ?P1.0 = "[(2, 2, 2)]" and ?P2.0 = "[(3, 2, 3)]"]
    by (simp add: event_with_def row_chord_def interpolate_lit_row)
  have b: "lightcurve_FindEdgesInGeometricShadow occulter_lit row_path
       = Inr ([2, 3], ComputeSamplePoints row_path)"
    unfolding lightcurve_FindEdgesInGeometricShadow_def Let_def
    by (simp add: row_path_samples interpolate_lit_row bind_def)
       (simp add: row_path_def)
  have c: "sorted (map DistanceFromStart (SamplePoints row_path))"
    by (simp add: row_path_def)
  have "sorted [2, 3 :: real]"
    using edges_nondecreasing_and_counted
      [where p = row_path and g = occulter_lit and es' = "[2, 3]"
         and p' = "ComputeSamplePoints row_path"] b c
    by blast
  with a b c show ?thesis by (simp add: event_with_def row_chord_def)
qed

lemma interpolate_dark_row:
  "interpolate occulter_dark 0 2 = Inr 1" "interpolate occulter_dark 1 2 = Inr 1"
  "interpolate occulter_dark 2 2 = Inr 0" "interpolate occulter_dark 3 2 = Inr 1"
  by (simp_all add: occulter_dark_def interpolate_def at2_def go_int_def Let_def)

lemma upt10: "[0..<10] = [0, 1, 2, 3, 4, 5, 6, 7, 8, 9]"
  by (simp add: upt_rec)

lemma disc_mask_10:
  "disc_mask 10 5 7 1 =
     [[0, 0, 0, 0, 0, 0, 0, 0, 0, 0], [0, 0, 0, 0, 0, 0, 0, 0, 0, 0],
      [0, 0, 0, 0, 0, 0, 0, 0, 0, 0], [0, 0, 0, 0, 0, 0, 0, 0, 0, 0],
      [0, 0, 0, 0, 0, 0, 0, 0, 0, 0], [0, 0, 0, 0, 0, 0, 0, 0, 0, 0],
      [0, 0, 0, 0, 0, 1, 0, 0, 0, 0], [0, 0, 0, 0, 1, 1, 1, 0, 0, 0],
      [0, 0, 0, 0, 0, 1, 0, 0, 0, 0], [0, 0, 0, 0, 0, 0, 0, 0, 0, 0]]"
  by (simp add: disc_mask_def upt10 power2_eq_square)

lemma column_chord_samples:
  "PathSamplePoints (computePathPoints column_chord_event)
   = [(5, 1 / 2, 0), (5, 3 / 2, 1), (5, 5 / 2, 2), (5, 7 / 2, 3), (5, 9 / 2, 4), (5, 11 / 2, 5),
      (5, 13 / 2, 6), (5, 15 / 2, 7), (5, 17 / 2, 8)]"
proof -
  have s: "sqrt 81 = 9" by (rule real_sqrt_unique) simp_all
  have r: "go_int (go_round 9) = 9" by (simp add: go_round_def go_int_def)
  have u: "[0..8::int] = [0, 1, 2, 3, 4, 5, 6, 7, 8]" by (simp add: upto_rec1)
  show ?thesis
    by (simp add: computePathPoints_def column_chord_event_def Let_def s r u)
qed

lemma column_chord_edges:
  "FindEdgesInGeometricShadow (computePathPoints column_chord_event) = Inr [5]"
proof -
  have g: "GeometricMatrix (computePathPoints column_chord_event) = disc_mask 10 5 7 1"
    by (simp add: computePathPoints_def column_chord_event_def Let_def)
  show ?thesis
    unfolding FindEdgesInGeometricShadow_def g column_chord_samples disc_mask_10
    by (simp add: interpolate_def at2_def go_int_def Let_def)
qed

text \<open>
  Claim C5 as it was stated fails. Samples with decreasing recorded distances give
  decreasing edges. In package main, for the disc of radius 1 around pixel \<open>(5, 7)\<close>,
  well inside the 10 x 10 square, and the chord down column 5, which starts outside the
  disc, one edge is returned: the sampler stops a pixel before the end of the chord, and
  its last sample is still in the interpolated shadow. And on a mask that is 1.0 where
  illuminated and 0.0 inside a single occulter, a chord of package lightcurve that starts
  outside the occulter and crosses it gets three edges, the first at its first sample.
\<close>

theorem edges_counterexample:
  "sorted (map (\<lambda>q. snd (snd q)) [(0, 0, 5), (1, 0, 3 :: real)]) = False
   \<and> FindEdgesInGeometricShadow (event_with left_lit [(0, 0, 5), (1, 0, 3)]) = Inr [5, 3]
   \<and> sorted [5, 3 :: real] = False
   \<and> FindEdgesInGeometricShadow (computePathPoints column_chord_event) = Inr [5]
   \<and> lightcurve_FindEdgesInGeometricShadow occulter_dark row_path
       = Inr ([0, 2, 3], ComputeSamplePoints row_path)"
proof -
  have a: "FindEdgesInGeometricShadow (event_with left_lit [(0, 0, 5), (1, 0, 3)]) = Inr [5, 3]"
    by (simp add: FindEdgesInGeometricShadow_def event_with_def left_lit_def interpolate_def
        at2_def go_int_def Let_def)
  have b: "lightcurve_FindEdgesInGeometricShadow occulter_dark row_path
       = Inr ([0, 2, 3], ComputeSamplePoints row_path)"
    unfolding lightcurve_FindEdgesInGeometricShadow_def Let_def
    by (simp add: row_path_samples interpolate_dark_row bind_def)
       (simp add: row_path_def)
  from a b column_chord_edges show ?thesis by simp
qed

section \<open>Properties: the star PSF\<close>

lemma fold_row_acc:
  "fold (\<lambda>col (r, s). let b = f col in (r @ [b], s + b)) cols (r0, s0)
   = (r0 @ map f cols, s0 + sum_list (map f cols))"
  by (induction cols arbitrary: r0 s0) (simp_all add: Let_def add.assoc)

lemma psf_row_value:
  "psf_row D rho u w center row (r0, s0)
   = (r0 @ map (\<lambda>col. StarBrightness
                   (sqrt (of_int ((row - center) * (row - center)
                                  + (col - center) * (col - center))) * rho) D u) [0..w - 1],
      s0 + sum_list (map (\<lambda>col. StarBrightness
                   (sqrt (of_int ((row - center) * (row - center)
                                  + (col - center) * (col - center))) * rho) D u) [0..w - 1]))"
  unfolding psf_row_def Let_def
  using fold_row_acc [of "\<lambda>col. StarBrightness
                   (sqrt (of_int ((row - center) * (row - center)
                                  + (col - center) * (col - center))) * rho) D u" "[0..w - 1]" r0 s0]
  by (simp add: Let_def)

lemma fold_matrix_acc:
  "fold (\<lambda>row (M, s). let (r, s') = (g row, s + t row) in (M @ [r], s')) rows (M0, s0)
   = (M0 @ map g rows, s0 + sum_list (map t rows))"
  by (induction rows arbitrary: M0 s0) (simp_all add: add.assoc)

lemma StarBrightness_nonneg:
  assumes "0 \<le> r" "0 < D" "0 \<le> u" "u < 1"
  shows "0 \<le> StarBrightness r D u"
proof (cases "r / (D / 2) \<ge> 1")
  case True
  then show ?thesis by (simp add: StarBrightness_def Let_def)
next
  case False
  define x where "x = r / (D / 2)"
  have x: "0 \<le> x" "x < 1" using assms False by (simp_all add: x_def)
  have "x * x \<le> 1" using x by (simp add: mult_le_one)
  then have "0 \<le> sqrt (1 - x * x)" "sqrt (1 - x * x) \<le> 1"
    using x by simp_all
  then have "0 \<le> 1 - sqrt (1 - x * x)" "1 - sqrt (1 - x * x) \<le> 1" by simp_all
  then have "u * (1 - sqrt (1 - x * x)) \<le> 1 * 1"
    using assms(3,4) by (intro mult_mono) simp_all
  then show ?thesis
    using False by (simp add: StarBrightness_def Let_def x_def)
qed

lemma StarBrightness_centre:
  assumes "0 < D"
  shows "StarBrightness (sqrt (of_int ((c - c) * (c - c) + (c - c) * (c - c))) * rho) D u = 1"
  by (simp add: StarBrightness_def Let_def)

lemma member_le_sum_list_real:
  fixes xs :: "real list"
  assumes "\<forall>v \<in> set xs. 0 \<le> v" "x \<in> set xs"
  shows "x \<le> sum_list xs"
  using assms
proof (induction xs)
  case Nil
  then show ?case by simp
next
  case (Cons a xs)
  have "0 \<le> sum_list xs" using Cons.prems(1) by (simp add: sum_list_nonneg)
  with Cons show ?case by auto
qed


lemma BuildStarPsf_value:
  fixes D rho u :: real
  assumes "0 < D" "0 < rho"
  defines "w0 \<equiv> \<lceil>D / rho\<rceil>"
  defines "w \<equiv> (if w0 smod 2 \<noteq> 0 then w0 + 1 else w0) + 4"
  defines "b \<equiv> (\<lambda>row col. StarBrightness
                   (sqrt (of_int ((row - w sdiv 2) * (row - w sdiv 2)
                                  + (col - w sdiv 2) * (col - w sdiv 2))) * rho) D u)"
  shows "BuildStarPsf D rho u
         = Inr (map (\<lambda>row. map (b row) [0..w - 1]) [0..w - 1],
                sum_list (map (\<lambda>row. sum_list (map (b row) [0..w - 1])) [0..w - 1]))"
    and "6 \<le> w" and "0 \<le> w sdiv 2" and "w sdiv 2 < w"
proof -
  have "0 < D / rho" using assms(1,2) by simp
  then have w0: "1 \<le> w0" unfolding w0_def by (simp add: less_ceiling_iff order.strict_implies_order
        one_le_ceiling)
  have "w0 smod 2 = 0 \<Longrightarrow> 2 \<le> w0"
    using w0 by (simp add: signed_modulo_int_def sgn_if) presburger
  with w0 show w: "6 \<le> w" by (auto simp: w_def)
  then show "0 \<le> w sdiv 2" "w sdiv 2 < w"
    by (simp_all add: signed_divide_int_def sgn_if)
  have nneg: "\<not> w < 0" using w by simp
  have rowv: "psf_row D rho u w (w sdiv 2) row ([], s)
              = (map (b row) [0..w - 1], s + sum_list (map (b row) [0..w - 1]))" for row s
    by (simp add: psf_row_value b_def)
  show "BuildStarPsf D rho u
         = Inr (map (\<lambda>row. map (b row) [0..w - 1]) [0..w - 1],
                sum_list (map (\<lambda>row. sum_list (map (b row) [0..w - 1])) [0..w - 1]))"
    unfolding BuildStarPsf_def Let_def go_int_of_int w0_def [symmetric] w_def [symmetric] rowv
    using nneg
      fold_matrix_acc [of "\<lambda>row. map (b row) [0..w - 1]"
        "\<lambda>row. sum_list (map (b row) [0..w - 1])" "[0..w - 1]" "[]" 0]
    by (simp add: Let_def)
qed

text \<open>
  Claim C10. For a positive star diameter, a positive resolution and a limb-darkening
  coefficient \<open>u\<close> with \<open>0 \<le> u < 1\<close>, \<open>BuildStarPsf\<close> returns a matrix and its sum of
  weights, and the sum is at least 1: no entry is negative, and the centre pixel, at
  index \<open>width / 2\<close> in both directions, lies at radius 0 and has brightness exactly 1.
  So the division by the sum in the convolution is by a positive number.
\<close>

theorem BuildStarPsf_sum_at_least_one:
  assumes "0 < D" "0 < rho" "0 \<le> u" "u < 1"
  shows "\<exists>P s. BuildStarPsf D rho u = Inr (P, s)
           \<and> 1 \<le> s
           \<and> s = sum_list (map sum_list P)
           \<and> (\<forall>row \<in> set P. \<forall>v \<in> set row. 0 \<le> v)
           \<and> (\<exists>c < length P. int c = int (length P) sdiv 2 \<and> c < length (P ! c)
                               \<and> P ! c ! c = 1)"
proof -
  define w where "w = (if \<lceil>D / rho\<rceil> smod 2 \<noteq> 0 then \<lceil>D / rho\<rceil> + 1 else \<lceil>D / rho\<rceil>) + 4"
  define c where "c = w sdiv 2"
  define b where "b = (\<lambda>row col. StarBrightness
                   (sqrt (of_int ((row - c) * (row - c) + (col - c) * (col - c))) * rho) D u)"
  define P where "P = map (\<lambda>row. map (b row) [0..w - 1]) [0..w - 1]"
  define s where "s = sum_list (map (\<lambda>row. sum_list (map (b row) [0..w - 1])) [0..w - 1])"
  have v: "BuildStarPsf D rho u = Inr (P, s)"
    using BuildStarPsf_value(1) [OF assms(1,2), of u]
    by (simp add: P_def s_def b_def c_def w_def)
  note bounds = BuildStarPsf_value(2-4) [OF assms(1,2), folded w_def, folded c_def]
  have w: "6 \<le> w" and c: "0 \<le> c" "c < w" using bounds by simp_all
  have nonneg: "0 \<le> b row col" for row col
    unfolding b_def using assms by (intro StarBrightness_nonneg) simp_all
  have centre: "b c c = 1"
    unfolding b_def by (rule StarBrightness_centre [OF assms(1)])
  have cin: "c \<in> set [0..w - 1]" using c by simp
  have "b c c \<le> sum_list (map (b c) [0..w - 1])"
    using cin by (intro member_le_sum_list_real) (auto simp: nonneg)
  also have "\<dots> \<le> s"
  proof -
    have "0 \<le> sum_list (map (b row) [0..w - 1])" for row
      by (rule sum_list_nonneg) (auto simp: nonneg)
    then show ?thesis
      unfolding s_def using cin by (intro member_le_sum_list_real) auto
  qed
  finally have one: "1 \<le> s" by (simp add: centre)
  have sums: "s = sum_list (map sum_list P)"
    by (simp add: s_def P_def comp_def)
  have pos: "\<forall>row \<in> set P. \<forall>v \<in> set row. 0 \<le> v"
    by (auto simp: P_def nonneg)
  have lenP: "length P = nat w" by (simp add: P_def)
  have nc: "nat c < length P" "int (nat c) = int (length P) sdiv 2"
    using c w by (simp_all add: lenP c_def)
  have row: "P ! nat c = map (b c) [0..w - 1]"
    using c by (simp add: P_def nth_upto)
  have "nat c < length (P ! nat c)" "P ! nat c ! nat c = 1"
    using c by (simp_all add: row nth_upto centre)
  with nc have "\<exists>k < length P. int k = int (length P) sdiv 2 \<and> k < length (P ! k)
                               \<and> P ! k ! k = 1"
    by blast
  with v one sums pos show ?thesis by blast
qed

theorem BuildStarPsf_sum_at_least_one_witness:
  "(0::real) < 1 / 2 \<and> (0::real) < 1 \<and> (0::real) \<le> 6 / 10 \<and> (6 / 10 :: real) < 1
   \<and> (case BuildStarPsf (1 / 2) 1 (6 / 10) of Inl e \<Rightarrow> False | Inr (P, s) \<Rightarrow> 1 \<le> s)"
  using BuildStarPsf_sum_at_least_one [of "1 / 2" 1 "6 / 10"] by auto

section \<open>Properties: the QE table\<close>

lemma cumWeights_sum:
  "fold (\<lambda>i c. c + snd (tbl ! i)) [0..<n] c0 = c0 + sum_list (map (\<lambda>i. snd (tbl ! i)) [0..<n])"
  by (induction n) (simp_all add: add.assoc)

lemma map_snd_nth:
  "map (\<lambda>i. snd (tbl ! i)) [0..<length tbl] = map snd tbl"
proof -
  have "map (\<lambda>i. snd (tbl ! i)) [0..<length tbl] = map snd (map ((!) tbl) [0..<length tbl])"
    by simp
  then show ?thesis by (simp only: map_nth)
qed

lemma normalise_fold:
  fixes st :: "nat \<Rightarrow> (real \<times> real) list"
  assumes "n \<le> length (st a)"
  shows "fold (\<lambda>i st. st(a := (st a)[i := (fst (st a ! i), snd (st a ! i) / c)])) [0..<n] st
         = st(a := map (\<lambda>p. (fst p, snd p / c)) (take n (st a)) @ drop n (st a))"
  using assms
proof (induction n)
  case 0
  then show ?case by simp
next
  case (Suc n)
  then have n: "n < length (st a)" by simp
  define L where "L = map (\<lambda>p. (fst p, snd p / c)) (take n (st a)) @ drop n (st a)"
  define f where "f = (\<lambda>i (st :: nat \<Rightarrow> (real \<times> real) list).
                         st(a := (st a)[i := (fst (st a ! i), snd (st a ! i) / c)]))"
  from n have "n \<le> length (st a)" by simp
  then have IH: "fold f [0..<n] st = st(a := L)"
    unfolding f_def L_def by (rule Suc.IH)
  have Ln: "L ! n = st a ! n"
    using n by (simp add: L_def nth_append)
  have upd: "L[n := (fst (st a ! n), snd (st a ! n) / c)]
        = map (\<lambda>p. (fst p, snd p / c)) (take (Suc n) (st a)) @ drop (Suc n) (st a)"
    using n by (simp add: L_def list_update_append take_Suc_conv_app_nth
        Cons_nth_drop_Suc [symmetric])
  have "fold f [0..<Suc n] st = f n (fold f [0..<n] st)" by simp
  also have "\<dots> = f n (st(a := L))" by (simp only: IH)
  also have "\<dots> = st(a := L[n := (fst (L ! n), snd (L ! n) / c)])"
    by (simp add: f_def)
  also have "\<dots> = st(a := map (\<lambda>p. (fst p, snd p / c)) (take (Suc n) (st a))
                              @ drop (Suc n) (st a))"
    by (simp only: Ln upd)
  finally show ?case by (simp only: f_def)
qed

lemma main_read_qe_accepts:
  assumes "PathToQEtable ev \<noteq> []" "readFile (PathToQEtable ev) = Some data"
    "parseArrayFormat data = Inr pairs" "pairs \<noteq> []"
    "plot (map (\<lambda>p. (fst p, snd p / sum_list (map snd pairs))) pairs)"
  shows "main_read_qe readFile parseArrayFormat plot a (st, ev)
         = Inr (st(a := map (\<lambda>p. (fst p, snd p / sum_list (map snd pairs))) pairs),
                ev\<lparr>QEtable := Some a\<rparr>)"
proof -
  have len: "\<not> length pairs < 1" using assms(4) by (cases pairs) simp_all
  have cum: "fold (\<lambda>i c. c + snd (pairs ! i)) [0..<length pairs] 0 = sum_list (map snd pairs)"
    by (simp add: cumWeights_sum map_snd_nth)
  have norm: "fold (\<lambda>i s. s(a := (s a)[i := (fst (s a ! i), snd (s a ! i) / c)]))
                [0..<length pairs] (st(a := pairs))
              = st(a := map (\<lambda>p. (fst p, snd p / c)) pairs)" for c
    using normalise_fold [of "length pairs" "st(a := pairs)" a c] by simp
  show ?thesis
    unfolding main_read_qe_def Let_def
    using assms(1,5) len by (simp add: assms(2,3) cum norm)
qed


lemma sum_list_divide:
  fixes t :: real
  shows "sum_list (map (\<lambda>p. snd p / t) ps) = sum_list (map snd ps) / t"
  by (induction ps) (simp_all add: add_divide_distrib)

lemma scaleComplex_nth:
  assumes "length v = n"
  shows "scaleComplex v s = map (\<lambda>j. of_real s * v ! j) [0..<n]"
  using assms
  by (intro nth_equalityI) (simp_all add: scaleComplex_def Let_def Complex_eq mult.commute)

lemma addScaled_nth:
  assumes "length u = n" "length v = n"
  shows "addScaledComplexInPlace u v s = Inr (map (\<lambda>j. u ! j + of_real s * v ! j) [0..<n])"
  using assms by (simp add: addScaledComplexInPlace_def Complex_eq)

lemma accumulate_fields:
  assumes "Suc d \<le> m" "\<forall>k < m. length (E k) = n"
  shows "fold (\<lambda>i acc. bind acc (\<lambda>eField. addScaledComplexInPlace eField (E i) (w i)))
           [1..<Suc d] (Inr (scaleComplex (E 0) (w 0)))
         = Inr (map (\<lambda>j. \<Sum>k<Suc d. of_real (w k) * E k ! j) [0..<n])"
proof -
  define F where "F = (\<lambda>i acc. bind acc (\<lambda>eField. addScaledComplexInPlace eField (E i) (w i)))"
  have "fold F [1..<Suc d] (Inr (scaleComplex (E 0) (w 0)))
         = Inr (map (\<lambda>j. \<Sum>k<Suc d. of_real (w k) * E k ! j) [0..<n])"
    using assms(1)
  proof (induction d)
    case 0
    have "length (E 0) = n" using assms by simp
    then show ?case by (simp add: scaleComplex_nth)
  next
    case (Suc d)
    then have prev: "fold F [1..<Suc d] (Inr (scaleComplex (E 0) (w 0)))
           = Inr (map (\<lambda>j. \<Sum>k<Suc d. of_real (w k) * E k ! j) [0..<n])"
      by simp
    have len: "length (E (Suc d)) = n" using Suc.prems assms(2) by simp
    have "fold F [1..<Suc (Suc d)] (Inr (scaleComplex (E 0) (w 0)))
          = F (Suc d) (fold F [1..<Suc d] (Inr (scaleComplex (E 0) (w 0))))"
      by simp
    also have "\<dots> = addScaledComplexInPlace
                       (map (\<lambda>j. \<Sum>k<Suc d. of_real (w k) * E k ! j) [0..<n])
                       (E (Suc d)) (w (Suc d))"
      unfolding prev by (simp add: F_def bind_def)
    also have "\<dots> = Inr (map (\<lambda>j. \<Sum>k<Suc (Suc d). of_real (w k) * E k ! j) [0..<n])"
      by (subst addScaled_nth [of _ n]) (simp_all add: len)
    finally show ?case .
  qed
  then show ?thesis by (simp only: F_def)
qed

text \<open>
  Claim C8, as the code has it. When a QE table is supplied (the path is given, the file
  is read and parsed): a table with no entries is rejected, with exit code 14; a table
  with entries whose weights do not sum to zero, and which the plotting library draws,
  is accepted whatever the signs of its weights are, there is no check of them; every
  weight is divided by the sum of the weights, in the backing array that the event
  shares, so the weights then sum to 1; and the field is accumulated as the sum of the
  per-wavelength fields times these normalised weights.
\<close>

theorem qe_table_normalised:
  assumes path: "PathToQEtable ev \<noteq> []"
    and read: "readFile (PathToQEtable ev) = Some data"
    and parse: "parseArrayFormat data = Inr pairs"
  shows "(pairs = [] \<longrightarrow>
            main_read_qe readFile parseArrayFormat plot a (st, ev) = Inl (Exit 14))
       \<and> (pairs \<noteq> [] \<and> sum_list (map snd pairs) \<noteq> 0
            \<and> plot (map (\<lambda>p. (fst p, snd p / sum_list (map snd pairs))) pairs) \<longrightarrow>
           (let total = sum_list (map snd pairs);
                weights = map (\<lambda>p. snd p / total) pairs;
                st' = st(a := map (\<lambda>p. (fst p, snd p / total)) pairs);
                ev' = ev\<lparr>QEtable := Some a\<rparr>
            in main_read_qe readFile parseArrayFormat plot a (st, ev) = Inr (st', ev')
               \<and> sum_list weights = 1
               \<and> ((\<forall>k < length pairs. length (solution (fst (pairs ! k) * nmToKm)) = n) \<longrightarrow>
                    main_efield solution (st', ev')
                    = Inr (map (\<lambda>j. \<Sum>k<length pairs.
                                 of_real (weights ! k) * solution (fst (pairs ! k) * nmToKm) ! j)
                             [0..<n]))))"
proof (intro conjI impI)
  assume "pairs = []"
  then show "main_read_qe readFile parseArrayFormat plot a (st, ev) = Inl (Exit 14)"
    using path by (simp add: main_read_qe_def read parse)
next
  assume a: "pairs \<noteq> [] \<and> sum_list (map snd pairs) \<noteq> 0
            \<and> plot (map (\<lambda>p. (fst p, snd p / sum_list (map snd pairs))) pairs)"
  then have ne: "pairs \<noteq> []" by simp
  define total where "total = sum_list (map snd pairs)"
  define tbl where "tbl = map (\<lambda>p. (fst p, snd p / total)) pairs"
  have plotted: "plot (map (\<lambda>p. (fst p, snd p / sum_list (map snd pairs))) pairs)"
    using a by simp
  have accept: "main_read_qe readFile parseArrayFormat plot a (st, ev)
                = Inr (st(a := tbl), ev\<lparr>QEtable := Some a\<rparr>)"
    unfolding tbl_def total_def
    by (rule main_read_qe_accepts [where readFile = readFile
          and parseArrayFormat = parseArrayFormat and plot = plot, OF path read parse ne plotted])
  have one: "sum_list (map (\<lambda>p. snd p / total) pairs) = 1"
    using a by (simp add: sum_list_divide total_def)
  have field: "main_efield solution (st(a := tbl), ev\<lparr>QEtable := Some a\<rparr>)
               = Inr (map (\<lambda>j. \<Sum>k<length pairs.
                          of_real (map (\<lambda>p. snd p / total) pairs ! k)
                            * solution (fst (pairs ! k) * nmToKm) ! j) [0..<n])"
    if lens: "\<forall>k < length pairs. length (solution (fst (pairs ! k) * nmToKm)) = n"
  proof -
    obtain d where d: "length pairs = Suc d" using ne by (cases pairs) simp_all
    have len: "length tbl = Suc d" by (simp add: tbl_def d)
    have E: "\<forall>k < length tbl. length (solution (fst (tbl ! k) * nmToKm)) = n"
      using lens by (simp add: tbl_def)
    have "main_efield solution (st(a := tbl), ev\<lparr>QEtable := Some a\<rparr>)
          = Inr (map (\<lambda>j. \<Sum>k<Suc d. of_real (snd (tbl ! k))
                              * solution (fst (tbl ! k) * nmToKm) ! j) [0..<n])"
    proof -
      have acc: "fold (\<lambda>i acc. bind acc (\<lambda>eField.
                    addScaledComplexInPlace eField (solution (fst (tbl ! i) * nmToKm))
                      (snd (tbl ! i))))
                  [1..<Suc d] (Inr (scaleComplex (solution (fst (tbl ! 0) * nmToKm)) (snd (tbl ! 0))))
                 = Inr (map (\<lambda>j. \<Sum>k<Suc d. of_real (snd (tbl ! k))
                              * solution (fst (tbl ! k) * nmToKm) ! j) [0..<n])"
        using E len
        by (intro accumulate_fields [of d "length tbl"
              "\<lambda>k. solution (fst (tbl ! k) * nmToKm)" n "\<lambda>k. snd (tbl ! k)"]) simp_all
      have "main_efield solution (st(a := tbl), ev\<lparr>QEtable := Some a\<rparr>)
            = fold (\<lambda>i acc. bind acc (\<lambda>eField.
                    addScaledComplexInPlace eField (solution (fst (tbl ! i) * nmToKm))
                      (snd (tbl ! i))))
                  [1..<Suc d] (Inr (scaleComplex (solution (fst (tbl ! 0) * nmToKm)) (snd (tbl ! 0))))"
      proof -
        have "tbl \<noteq> []" using len by auto
        then show ?thesis
          unfolding main_efield_def Let_def by (simp add: len del: upt_Suc)
      qed
      then show ?thesis by (simp only: acc)
    qed
    also have "\<dots> = Inr (map (\<lambda>j. \<Sum>k<length pairs.
                          of_real (map (\<lambda>p. snd p / total) pairs ! k)
                            * solution (fst (pairs ! k) * nmToKm) ! j) [0..<n])"
      unfolding d [symmetric] by (simp add: tbl_def)
    finally show ?thesis .
  qed
  show "let total = sum_list (map snd pairs);
            weights = map (\<lambda>p. snd p / total) pairs;
            st' = st(a := map (\<lambda>p. (fst p, snd p / total)) pairs);
            ev' = ev\<lparr>QEtable := Some a\<rparr>
        in main_read_qe readFile parseArrayFormat plot a (st, ev) = Inr (st', ev')
           \<and> sum_list weights = 1
           \<and> ((\<forall>k < length pairs. length (solution (fst (pairs ! k) * nmToKm)) = n) \<longrightarrow>
                main_efield solution (st', ev')
                = Inr (map (\<lambda>j. \<Sum>k<length pairs.
                             of_real (weights ! k) * solution (fst (pairs ! k) * nmToKm) ! j)
                         [0..<n]))"
    unfolding Let_def total_def [symmetric] tbl_def [symmetric]
    using accept one field by blast
qed


theorem qe_table_normalised_witness:
  "PathToQEtable qe_event \<noteq> []
   \<and> map_sum id (\<lambda>(st, ev). (st 0, QEtable ev))
        (main_read_qe (\<lambda>p. Some []) (\<lambda>d. Inr [(500, 1), (600, 3)]) (\<lambda>t. True) 0
           (\<lambda>a. [], qe_event))
      = Inr ([(500, 1 / 4), (600, 3 / 4)], Some 0)
   \<and> sum_list (map snd [(500, 1 / 4), (600, 3 / 4 :: real)]) = 1
   \<and> main_efield (\<lambda>wl. [1, \<i>])
        ((\<lambda>a. [])(0 := [(500, 1 / 4), (600, 3 / 4)]), qe_event\<lparr>QEtable := Some 0\<rparr>)
      = Inr [1, \<i>]
   \<and> main_read_qe (\<lambda>p. Some []) (\<lambda>d. Inr []) (\<lambda>t. True) 0 (\<lambda>a. [], qe_event)
      = Inl (Exit 14)"
proof -
  have p: "PathToQEtable qe_event \<noteq> []" by (simp add: qe_event_def)
  note inst = qe_table_normalised [of qe_event "\<lambda>p. Some []" "[]" "\<lambda>d. Inr [(500, 1), (600, 3)]"
        "[(500, 1), (600, 3)]" "\<lambda>t. True" 0 "\<lambda>a. []" "\<lambda>wl. [1, \<i>]" 2, OF p]
  have a: "map_sum id (\<lambda>(st, ev). (st 0, QEtable ev))
        (main_read_qe (\<lambda>p. Some []) (\<lambda>d. Inr [(500, 1), (600, 3)]) (\<lambda>t. True) 0
           (\<lambda>a. [], qe_event))
      = Inr ([(500, 1 / 4), (600, 3 / 4)], Some 0)"
    using inst by (simp add: Let_def)
  have two: "{..<2::nat} = {0, 1}" by auto
  have upt2: "[0..<2] = [0, Suc 0]" by (simp add: upt_rec)
  have c: "main_efield (\<lambda>wl. [1, \<i>])
        ((\<lambda>a. [])(0 := [(500, 1 / 4), (600, 3 / 4)]), qe_event\<lparr>QEtable := Some 0\<rparr>)
      = Inr [1, \<i>]"
    using inst by (simp add: Let_def two upt2 algebra_simps)
  have b: "main_read_qe (\<lambda>p. Some []) (\<lambda>d. Inr []) (\<lambda>t. True) 0 (\<lambda>a. [], qe_event)
           = Inl (Exit 14)"
    using qe_table_normalised [of qe_event "\<lambda>p. Some []" "[]" "\<lambda>d. Inr []" "[]" "\<lambda>t. True" 0
        "\<lambda>a. []", OF p]
    by simp
  from p a b c show ?thesis by simp
qed

text \<open>
  Claim C8 as it was stated fails: a table with the weight \<open>-1\<close> is accepted and
  normalised.
\<close>

theorem qe_nonpositive_weight_counterexample:
  "map_sum id (\<lambda>(st, ev). (st 0, QEtable ev))
     (main_read_qe (\<lambda>p. Some []) (\<lambda>d. Inr [(500, - 1), (600, 3)]) (\<lambda>t. True) 0
        (\<lambda>a. [], qe_event))
   = Inr ([(500, - 1 / 2), (600, 3 / 2)], Some 0)"
proof -
  have p: "PathToQEtable qe_event \<noteq> []" by (simp add: qe_event_def)
  show ?thesis
    using main_read_qe_accepts [of qe_event "\<lambda>p. Some []" "[]" "\<lambda>d. Inr [(500, - 1), (600, 3)]"
        "[(500, - 1), (600, 3)]" "\<lambda>t. True" 0 "\<lambda>a. []", OF p]
    by simp
qed

section \<open>Properties: convolution by FFT\<close>

lemma collect_total:
  assumes "\<And>x. x \<in> set xs \<Longrightarrow> \<exists>v. g x = Inr v"
  shows "\<exists>vs. collect (map g xs) = Inr vs \<and> length vs = length xs
              \<and> (\<forall>i < length xs. g (xs ! i) = Inr (vs ! i))"
  using assms
proof (induction xs)
  case Nil
  then show ?case by simp
next
  case (Cons x xs)
  from Cons.prems obtain v where v: "g x = Inr v" by auto
  from Cons obtain vs where vs: "collect (map g xs) = Inr vs" "length vs = length xs"
    "\<forall>i < length xs. g (xs ! i) = Inr (vs ! i)" by auto
  have "\<forall>i < length (x # xs). g ((x # xs) ! i) = Inr ((v # vs) ! i)"
    using v vs(3) by (auto simp: nth_Cons split: nat.splits)
  with v vs show ?case by auto
qed

lemma collect_grid:
  assumes "\<And>y x. y \<in> set ys \<Longrightarrow> x \<in> set xs \<Longrightarrow> \<exists>v. g y x = Inr v"
  shows "\<exists>M. collect (map (\<lambda>y. collect (map (g y) xs)) ys) = Inr M
             \<and> grid (length ys) (length xs) M
             \<and> (\<forall>i < length ys. \<forall>j < length xs. g (ys ! i) (xs ! j) = Inr (M ! i ! j))"
proof -
  have row: "\<exists>r. collect (map (g y) xs) = Inr r" if "y \<in> set ys" for y
    using collect_total [of xs "g y"] assms that by blast
  from collect_total [of ys "\<lambda>y. collect (map (g y) xs)", OF row]
  obtain M where M: "collect (map (\<lambda>y. collect (map (g y) xs)) ys) = Inr M"
    "length M = length ys" "\<forall>i < length ys. collect (map (g (ys ! i)) xs) = Inr (M ! i)"
    by blast
  have rows: "length (M ! i) = length xs \<and> (\<forall>j < length xs. g (ys ! i) (xs ! j) = Inr (M ! i ! j))"
    if i: "i < length ys" for i
  proof -
    from collect_total [of xs "g (ys ! i)"] assms i
    obtain r where "collect (map (g (ys ! i)) xs) = Inr r" "length r = length xs"
      "\<forall>j < length xs. g (ys ! i) (xs ! j) = Inr (r ! j)"
      by (metis nth_mem)
    with M(3) i show ?thesis by auto
  qed
  have "grid (length ys) (length xs) M"
    unfolding grid_def using M(2) rows by (auto simp: in_set_conv_nth)
  with M(1) rows show ?thesis by blast
qed

lemma nextPow2_loop_ge: "0 < p \<Longrightarrow> p \<le> nextPow2_loop p n \<and> n \<le> nextPow2_loop p n"
proof (induction p n rule: nextPow2_loop.induct)
  case (1 p n)
  show ?case
  proof (cases "0 < p \<and> p < n")
    case True
    then have "2 * p \<le> nextPow2_loop (2 * p) n \<and> n \<le> nextPow2_loop (2 * p) n"
      using "1.IH" by simp
    moreover have "nextPow2_loop p n = nextPow2_loop (2 * p) n"
      using True by (subst nextPow2_loop.simps) simp
    ultimately show ?thesis using True by simp
  next
    case False
    then have "nextPow2_loop p n = p"
      by (subst nextPow2_loop.simps) auto
    with False "1.prems" show ?thesis by simp
  qed
qed

lemma nextPow2_ge: "1 \<le> nextPow2 n \<and> n \<le> nextPow2 n"
  using nextPow2_loop_ge [of 1 n] by (simp add: nextPow2_def)

lemma mod_int_range:
  assumes "0 < n"
  shows "\<exists>r. mod_int i n = Inr r \<and> 0 \<le> r \<and> r < n"
proof -
  have "\<bar>i smod n\<bar> < n" using assms by (simp add: signed_modulo_int_def abs_mult)
  then show ?thesis using assms by (auto simp: mod_int_def Let_def)
qed

lemma reflectIndex_range:
  assumes "0 < n"
  shows "\<exists>r. reflectIndex i n = Inr r \<and> 0 \<le> r \<and> r < n"
proof (cases "n \<le> 1")
  case True
  with assms show ?thesis by (simp add: reflectIndex_def)
next
  case False
  then have "0 < 2 * n - 2" by simp
  from mod_int_range [OF this] obtain r where "mod_int i (2 * n - 2) = Inr r" "0 \<le> r" "r < 2 * n - 2"
    by blast
  with False show ?thesis by (auto simp: reflectIndex_def Let_def bind_def)
qed

lemma rectSize_value:
  "rectSize m = (if ragged m then Inl (Failure ''ragged matrix'')
                 else Inr (int (length m), if m = [] then 0 else int (length (hd m))))"
proof (cases m)
  case Nil
  then show ?thesis by (simp add: rectSize_def ragged_def)
next
  case (Cons r rs)
  then show ?thesis
    by (auto simp: rectSize_def ragged_def Let_def list_ex_iff)
qed

lemma grid_of_rect:
  assumes "\<not> ragged m"
  shows "grid (length m) (length (hd m)) m"
  using assms by (auto simp: grid_def ragged_def)

lemma at2_grid:
  assumes "grid h w m" "0 \<le> y" "y < int h" "0 \<le> x" "x < int w"
  shows "at2 m y x = Inr (m ! nat y ! nat x)"
proof -
  have "nat y < length m" using assms by (simp add: grid_def)
  then have "length (m ! nat y) = w" using assms(1) by (simp add: grid_def)
  then show ?thesis using assms by (simp add: at2_def grid_def)
qed

lemma grid_hd:
  assumes "grid h w m" "0 < h"
  shows "m \<noteq> []" "length (hd m) = w"
  using assms by (auto simp: grid_def intro: hd_in_set)

lemma clamp_range: "lo \<le> hi \<Longrightarrow> lo \<le> clamp v lo hi \<and> clamp v lo hi \<le> hi"
  by (simp add: clamp_def)

lemma sample2D_total:
  assumes g: "grid h w img" and h: "0 < h" and w: "0 < w"
  shows "\<exists>v. sample2D img y x pad = Inr v"
proof -
  note hd = grid_hd [OF g h]
  have len: "length img = h" using g by (simp add: grid_def)
  have at: "\<exists>v. at2 img yy xx = Inr v" if "0 \<le> yy" "yy < int h" "0 \<le> xx" "xx < int w" for yy xx
    using at2_grid [OF g that] by blast
  from reflectIndex_range [of "int h" y] h obtain ry
    where ry: "reflectIndex y (int h) = Inr ry" "0 \<le> ry" "ry < int h" by auto
  from reflectIndex_range [of "int w" x] w obtain rx
    where rx: "reflectIndex x (int w) = Inr rx" "0 \<le> rx" "rx < int w" by auto
  from mod_int_range [of "int h" y] h obtain my
    where my: "mod_int y (int h) = Inr my" "0 \<le> my" "my < int h" by auto
  from mod_int_range [of "int w" x] w obtain mx
    where mx: "mod_int x (int w) = Inr mx" "0 \<le> mx" "mx < int w" by auto
  have cy: "0 \<le> clamp y 0 (int h - 1)" "clamp y 0 (int h - 1) < int h"
    using clamp_range [of 0 "int h - 1" y] h by simp_all
  have cx: "0 \<le> clamp x 0 (int w - 1)" "clamp x 0 (int w - 1) < int w"
    using clamp_range [of 0 "int w - 1" x] w by simp_all
  show ?thesis
    unfolding sample2D_def Let_def len hd(2)
    using hd(1) at [OF ry(2,3) rx(2,3)] at [OF my(2,3) mx(2,3)] at [OF cy cx] at [of y x]
    by (simp add: ry(1) rx(1) my(1) mx(1) bind_def)
qed

lemma smod_nonneg: "0 \<le> a \<Longrightarrow> 0 < n \<Longrightarrow> (a::int) smod n = a mod n"
  by (simp add: signed_modulo_int_def sgn_if)

lemma sdiv2_nonneg: "0 \<le> a \<Longrightarrow> (a::int) sdiv 2 = a div 2"
  by (simp add: signed_divide_int_def sgn_if)

lemma length_upto0 [simp]: "length [0..n - 1] = nat n"
  by simp

lemma ifftshift2D_total:
  assumes g: "grid h w p" and h: "0 < h"
  shows "\<exists>q. ifftshift2D p = Inr q \<and> grid h w q"
proof -
  note hd = grid_hd [OF g h]
  have len: "length p = h" using g by (simp add: grid_def)
  have cell: "\<exists>v. at2 p ((y + int h sdiv 2) smod int h) ((x0 + int w sdiv 2) smod int w) = Inr v"
    if "y \<in> set [0..int h - 1]" "x0 \<in> set [0..int w - 1]" for y x0
  proof -
    from that have y: "0 \<le> y" and x: "0 \<le> x0" "x0 < int w" by simp_all
    then have w: "0 < int w" by simp
    have "0 \<le> y + int h sdiv 2" "0 \<le> x0 + int w sdiv 2"
      using y x by (simp_all add: sdiv2_nonneg)
    then have "(y + int h sdiv 2) smod int h = (y + int h sdiv 2) mod int h"
      "(x0 + int w sdiv 2) smod int w = (x0 + int w sdiv 2) mod int w"
      using h w by (simp_all add: smod_nonneg)
    moreover have "0 \<le> (y + int h sdiv 2) mod int h" "(y + int h sdiv 2) mod int h < int h"
      "0 \<le> (x0 + int w sdiv 2) mod int w" "(x0 + int w sdiv 2) mod int w < int w"
      using h w by simp_all
    ultimately show ?thesis using at2_grid [OF g] by metis
  qed
  from collect_grid [of "[0..int h - 1]" "[0..int w - 1]"
      "\<lambda>y x0. at2 p ((y + int h sdiv 2) smod int h) ((x0 + int w sdiv 2) smod int w)", OF cell]
  show ?thesis
    unfolding ifftshift2D_def Let_def len hd(2) using hd(1) by auto
qed

lemma fft2InPlace_total:
  assumes g: "grid h w a" and h: "0 < h"
  shows "\<exists>b. fft2InPlace a forward = Inr b \<and> grid h w b"
proof -
  note hd = grid_hd [OF g h]
  have len: "length a = h" using g by (simp add: grid_def)
  have rows: "\<not> list_ex (\<lambda>row. length row \<noteq> w) a"
    using g by (auto simp: grid_def list_ex_iff)
  show ?thesis
    unfolding fft2InPlace_def Let_def len hd(2)
    using hd(1) rows by (simp add: grid_def)
qed

lemma grid_product:
  assumes "grid h w a" "grid h w b"
  shows "grid h w (map2 (map2 (*)) a b)"
  using assms by (auto simp: grid_def set_zip)

lemma crop_total:
  assumes g: "grid fh fw full" and off: "0 \<le> offY" "0 \<le> offX" and w: "0 \<le> w"
    and fits: "offY + h \<le> int fh" "offX + w \<le> int fw"
  shows "\<exists>out. crop full offY offX h w = Inr out \<and> grid (nat h) (nat w) out"
proof -
  define F where "F = (\<lambda>y. bind (at1 full (y + offY)) (\<lambda>row.
                  if 0 \<le> offX \<and> offX \<le> offX + w \<and> offX + w \<le> int (length row)
                  then Inr (take (nat w) (drop (nat offX) row)) else Inl Panic))"
  have len: "length full = fh" using g by (simp add: grid_def)
  have row: "\<exists>r. F y = Inr r \<and> length r = nat w" if "y \<in> set [0..h - 1]" for y
  proof -
    from that have y: "0 \<le> y + offY" "y + offY < int fh" using off fits by simp_all
    then have "nat (y + offY) < length full" by (simp add: len)
    then have "length (full ! nat (y + offY)) = fw" using g by (simp add: grid_def)
    then show ?thesis
      using y off w fits by (simp add: F_def at1_def bind_def len)
  qed
  have "\<exists>vs. collect (map F [0..h - 1]) = Inr vs \<and> length vs = length [0..h - 1]
              \<and> (\<forall>i < length [0..h - 1]. F ([0..h - 1] ! i) = Inr (vs ! i))"
    by (rule collect_total) (use row in blast)
  then obtain out where out: "collect (map F [0..h - 1]) = Inr out" "length out = nat h"
    "\<forall>i < nat h. F ([0..h - 1] ! i) = Inr (out ! i)"
    by auto
  have "length (out ! i) = nat w" if "i < nat h" for i
  proof -
    have "[0..h - 1] ! i \<in> set [0..h - 1]" using that by (intro nth_mem) simp
    from row [OF this] out(3) that show ?thesis by auto
  qed
  then have "grid (nat h) (nat w) out"
    using out(2) by (auto simp: grid_def in_set_conv_nth)
  moreover have "crop full offY offX h w = Inr out"
    using out(1) by (simp add: crop_def F_def)
  ultimately show ?thesis by blast
qed

lemma bind_Inr [simp]: "bind (Inr v) f = f v"
  by (simp add: bind_def)

lemma bind_Inl [simp]: "bind (Inl e) f = Inl e"
  by (simp add: bind_def)

lemma grid_not_ragged:
  assumes "grid h w m"
  shows "\<not> ragged m"
proof (cases m)
  case Nil
  then show ?thesis by (simp add: ragged_def)
next
  case (Cons r rs)
  with assms show ?thesis by (auto simp: ragged_def grid_def)
qed

lemma rectSize_grid:
  assumes "grid h w m" "0 < h"
  shows "rectSize m = Inr (int h, int w)"
  using grid_not_ragged [OF assms(1)] grid_hd [OF assms] assms
  by (simp add: rectSize_value grid_def)

lemma makeComplex2D_grid: "grid (nat h) (nat w) (makeComplex2D h w)"
  by (simp add: grid_def makeComplex2D_def)

lemma ConvolvePSFFFT_stages:
  assumes "rectSize img = Inr (H, W)" "rectSize psf = Inr (Ph, Pw)"
    and "\<not> (H = 0 \<or> W = 0 \<or> Ph = 0 \<or> Pw = 0)"
    and "(if cmode = ConvSame then Inr (H, W)
          else if cmode = ConvFull then Inr (H + Ph - 1, W + Pw - 1)
          else if cmode = ConvValid then
            (if H - Ph + 1 \<le> 0 \<or> W - Pw + 1 \<le> 0
             then Inl (Failure ''valid convolution requested but psf larger than image'')
             else Inr (H - Ph + 1, W - Pw + 1))
          else Inl (Failure ''unknown ConvMode'')) = Inr (outH, outW)"
    and "(if nextPow2 (H + Ph - 1) smod 2 \<noteq> 0 then nextPow2 (H + Ph - 1) + 1
          else nextPow2 (H + Ph - 1)) = FH"
    and "(if nextPow2 (W + Pw - 1) smod 2 \<noteq> 0 then nextPow2 (W + Pw - 1) + 1
          else nextPow2 (W + Pw - 1)) = FW"
    and "collect (map (\<lambda>y. collect (map (\<lambda>x.
                 bind (sample2D img y x pad) (\<lambda>v. Inr (Complex v 0))) [0..FW - 1]))
               [0..FH - 1]) = Inr A"
    and "(if centeredPsf then ifftshift2D psf else Inr psf) = Inr src"
    and "collect (map (\<lambda>y. collect (map (\<lambda>x.
                 if y < Ph \<and> x < Pw then bind (at2 src y x) (\<lambda>v. Inr (Complex v 0))
                 else at2 (makeComplex2D FH FW) y x) [0..FW - 1]))
               [0..FH - 1]) = Inr B"
    and "fft2InPlace A True = Inr A1" "fft2InPlace B True = Inr B1"
    and "fft2InPlace (map2 (map2 (*)) A1 B1) False = Inr A3"
    and "collect (map (\<lambda>y. collect (map (\<lambda>x.
                 bind (at2 A3 y x) (\<lambda>c. Inr (Re c / of_int (FH * FW) / starSum)))
                 [0..W + Pw - 1 - 1])) [0..H + Ph - 1 - 1]) = Inr full"
  shows "ConvolvePSFFFT img psf starSum cmode pad centeredPsf
         = (if cmode = ConvFull then Inr full
            else if cmode = ConvSame then crop full (Ph sdiv 2) (Pw sdiv 2) H W
            else if cmode = ConvValid then crop full (Ph - 1) (Pw - 1) outH outW
            else Inl (Failure ''unreachable''))"
  unfolding ConvolvePSFFFT_def
  by (simp only: assms bind_Inr prod.case Let_def if_False)

lemma ConvolvePSFFFT_total:
  assumes img: "grid H W img" "0 < H" "0 < W"
    and psf: "grid Ph Pw psf" "0 < Ph" "0 < Pw"
    and cmode: "cmode = ConvSame \<or> cmode = ConvFull
                \<or> cmode = ConvValid \<and> Ph \<le> H \<and> Pw \<le> W"
  shows "\<exists>out. ConvolvePSFFFT img psf starSum cmode pad centeredPsf = Inr out
           \<and> grid (if cmode = ConvSame then H else if cmode = ConvFull then H + Ph - 1
                    else H - Ph + 1)
                   (if cmode = ConvSame then W else if cmode = ConvFull then W + Pw - 1
                    else W - Pw + 1) out"
proof -
  define FH where "FH = (if nextPow2 (int H + int Ph - 1) smod 2 \<noteq> 0
                         then nextPow2 (int H + int Ph - 1) + 1 else nextPow2 (int H + int Ph - 1))"
  define FW where "FW = (if nextPow2 (int W + int Pw - 1) smod 2 \<noteq> 0
                         then nextPow2 (int W + int Pw - 1) + 1 else nextPow2 (int W + int Pw - 1))"
  have FH: "1 \<le> FH" "int H + int Ph - 1 \<le> FH"
    using nextPow2_ge [of "int H + int Ph - 1"] by (auto simp: FH_def)
  have FW: "1 \<le> FW" "int W + int Pw - 1 \<le> FW"
    using nextPow2_ge [of "int W + int Pw - 1"] by (auto simp: FW_def)
  have pos: "0 < nat FH" using FH by simp
  \<comment> \<open>the padded image\<close>
  have "\<exists>v. bind (sample2D img y x pad) (\<lambda>v. Inr (Complex v 0)) = Inr v" for y x
    using sample2D_total [OF img, of y x pad] by (auto simp: bind_def)
  from collect_grid [of "[0..FH - 1]" "[0..FW - 1]"
      "\<lambda>y x. bind (sample2D img y x pad) (\<lambda>v. Inr (Complex v 0))", OF this]
  obtain A where A: "collect (map (\<lambda>y. collect (map (\<lambda>x.
                 bind (sample2D img y x pad) (\<lambda>v. Inr (Complex v 0))) [0..FW - 1]))
               [0..FH - 1]) = Inr A" "grid (nat FH) (nat FW) A"
    by auto
  \<comment> \<open>the PSF, shifted or not\<close>
  obtain src where src: "(if centeredPsf then ifftshift2D psf else Inr psf) = Inr src"
    "grid Ph Pw src"
    using ifftshift2D_total [OF psf(1,2)] psf(1) by (cases centeredPsf) auto
  have "\<exists>v. (if y < int Ph \<and> x < int Pw then bind (at2 src y x) (\<lambda>v. Inr (Complex v 0))
              else at2 (makeComplex2D FH FW) y x) = Inr v"
    if "y \<in> set [0..FH - 1]" "x \<in> set [0..FW - 1]" for y x
  proof (cases "y < int Ph \<and> x < int Pw")
    case True
    with that at2_grid [OF src(2), of y x] show ?thesis by (simp add: bind_def)
  next
    case False
    with that at2_grid [OF makeComplex2D_grid, of y FH x FW] show ?thesis by auto
  qed
  from collect_grid [of "[0..FH - 1]" "[0..FW - 1]"
      "\<lambda>y x. if y < int Ph \<and> x < int Pw then bind (at2 src y x) (\<lambda>v. Inr (Complex v 0))
              else at2 (makeComplex2D FH FW) y x", OF this]
  obtain B where B: "collect (map (\<lambda>y. collect (map (\<lambda>x.
                 if y < int Ph \<and> x < int Pw then bind (at2 src y x) (\<lambda>v. Inr (Complex v 0))
                 else at2 (makeComplex2D FH FW) y x) [0..FW - 1]))
               [0..FH - 1]) = Inr B" "grid (nat FH) (nat FW) B"
    by auto
  \<comment> \<open>the transforms\<close>
  from fft2InPlace_total [OF A(2) pos] obtain A1
    where A1: "fft2InPlace A True = Inr A1" "grid (nat FH) (nat FW) A1" by blast
  from fft2InPlace_total [OF B(2) pos] obtain B1
    where B1: "fft2InPlace B True = Inr B1" "grid (nat FH) (nat FW) B1" by blast
  from fft2InPlace_total [OF grid_product [OF A1(2) B1(2)] pos] obtain A3
    where A3: "fft2InPlace (map2 (map2 (*)) A1 B1) False = Inr A3" "grid (nat FH) (nat FW) A3"
    by blast
  \<comment> \<open>the full result\<close>
  have "\<exists>v. bind (at2 A3 y x) (\<lambda>c. Inr (Re c / real_of_int (FH * FW) / starSum)) = Inr v"
    if "y \<in> set [0..int H + int Ph - 1 - 1]" "x \<in> set [0..int W + int Pw - 1 - 1]" for y x
    using that FH FW at2_grid [OF A3(2), of y x] by (simp add: bind_def)
  from collect_grid [of "[0..int H + int Ph - 1 - 1]" "[0..int W + int Pw - 1 - 1]"
      "\<lambda>y x. bind (at2 A3 y x) (\<lambda>c. Inr (Re c / real_of_int (FH * FW) / starSum))", OF this]
  obtain full where full: "collect (map (\<lambda>y. collect (map (\<lambda>x.
                 bind (at2 A3 y x) (\<lambda>c. Inr (Re c / real_of_int (FH * FW) / starSum)))
                 [0..int W + int Pw - 1 - 1])) [0..int H + int Ph - 1 - 1]) = Inr full"
    "grid (H + Ph - 1) (W + Pw - 1) full"
    using img(2) psf(2) img(3) psf(3) by (auto simp: nat_diff_distrib nat_add_distrib)
  \<comment> \<open>the crops\<close>
  have half: "0 \<le> int Ph sdiv 2" "int Ph sdiv 2 + int H \<le> int (H + Ph - 1)"
    "0 \<le> int Pw sdiv 2" "int Pw sdiv 2 + int W \<le> int (W + Pw - 1)"
    using psf(2,3) by (simp_all add: sdiv2_nonneg)
  from crop_total [OF full(2) half(1,3) _ half(2,4)] obtain same
    where same: "crop full (int Ph sdiv 2) (int Pw sdiv 2) (int H) (int W) = Inr same"
      "grid H W same" by auto
  have valid: "\<exists>out. crop full (int Ph - 1) (int Pw - 1) (int H - int Ph + 1) (int W - int Pw + 1)
                       = Inr out \<and> grid (H - Ph + 1) (W - Pw + 1) out"
    if "Ph \<le> H" "Pw \<le> W"
  proof -
    from crop_total [OF full(2), of "int Ph - 1" "int Pw - 1" "int W - int Pw + 1"
        "int H - int Ph + 1"] that psf(2,3)
    obtain out where "crop full (int Ph - 1) (int Pw - 1) (int H - int Ph + 1) (int W - int Pw + 1)
                       = Inr out" "grid (nat (int H - int Ph + 1)) (nat (int W - int Pw + 1)) out"
      by auto
    moreover have "nat (int H - int Ph + 1) = H - Ph + 1" "nat (int W - int Pw + 1) = W - Pw + 1"
      using that by simp_all
    ultimately show ?thesis by simp
  qed
  have rs: "rectSize img = Inr (int H, int W)" "rectSize psf = Inr (int Ph, int Pw)"
    using rectSize_grid [OF img(1,2)] rectSize_grid [OF psf(1,2)] by simp_all
  have ne: "\<not> (int H = 0 \<or> int W = 0 \<or> int Ph = 0 \<or> int Pw = 0)"
    using img psf by simp
  obtain outH outW where dims:
    "(if cmode = ConvSame then Inr (int H, int W)
      else if cmode = ConvFull then Inr (int H + int Ph - 1, int W + int Pw - 1)
      else if cmode = ConvValid then
        (if int H - int Ph + 1 \<le> 0 \<or> int W - int Pw + 1 \<le> 0
         then Inl (Failure ''valid convolution requested but psf larger than image'')
         else Inr (int H - int Ph + 1, int W - int Pw + 1))
      else Inl (Failure ''unknown ConvMode'')) = Inr (outH, outW)"
    "cmode = ConvValid \<longrightarrow> outH = int H - int Ph + 1 \<and> outW = int W - int Pw + 1"
    using cmode by (auto simp: ConvSame_def ConvFull_def ConvValid_def)
  note run = ConvolvePSFFFT_stages [OF rs ne dims(1) FH_def [symmetric] FW_def [symmetric]
      A(1) src(1) B(1) A1(1) B1(1) A3(1) full(1)]
  consider (same) "cmode = ConvSame" | (full) "cmode = ConvFull"
    | (valid) "cmode = ConvValid" "Ph \<le> H" "Pw \<le> W"
    using cmode by blast
  then show ?thesis
  proof cases
    case same
    then show ?thesis
      using run \<open>grid H W same\<close>
        \<open>crop full (int Ph sdiv 2) (int Pw sdiv 2) (int H) (int W) = Inr same\<close>
      by (simp add: ConvSame_def ConvFull_def)
  next
    case full
    then show ?thesis
      using run \<open>grid (H + Ph - 1) (W + Pw - 1) full\<close>
      by (simp add: ConvSame_def ConvFull_def)
  next
    case valid
    from valid(2,3) \<open>\<lbrakk>Ph \<le> H; Pw \<le> W\<rbrakk> \<Longrightarrow> \<exists>out. crop full (int Ph - 1) (int Pw - 1)
        (int H - int Ph + 1) (int W - int Pw + 1) = Inr out \<and> grid (H - Ph + 1) (W - Pw + 1) out\<close>
    obtain out where out: "crop full (int Ph - 1) (int Pw - 1) (int H - int Ph + 1)
        (int W - int Pw + 1) = Inr out" "grid (H - Ph + 1) (W - Pw + 1) out"
      by blast
    with valid dims(2) show ?thesis
      using run by (simp add: ConvSame_def ConvFull_def ConvValid_def)
  qed
qed

lemma cis_quarter_minus: "cis (- (2 * pi * real j * real k / real 4)) = (- \<i>) ^ (j * k)"
proof -
  have "cis (- (pi / 2)) = - \<i>"
    by (simp add: cis_cnj [symmetric])
  then have "(- \<i>) ^ (j * k) = cis (real (j * k) * (- (pi / 2)))"
    by (simp only: DeMoivre [symmetric])
  also have "real (j * k) * (- (pi / 2)) = - (2 * pi * real j * real k / real 4)"
    by simp
  finally show ?thesis by simp
qed

lemma cis_quarter_plus: "cis (2 * pi * real j * real k / real 4) = \<i> ^ (j * k)"
proof -
  have "\<i> ^ (j * k) = cis (real (j * k) * (pi / 2))"
    by (simp only: DeMoivre [symmetric] cis_pi_half)
  also have "real (j * k) * (pi / 2) = 2 * pi * real j * real k / real 4"
    by simp
  finally show ?thesis by simp
qed

lemma upt4: "[0..<4] = [0, 1, 2, 3]"
  by (simp add: upt_rec)

lemma lessThan4: "{..<4::nat} = {0, 1, 2, 3}"
  by auto

lemma i_powers:
  "\<i> ^ 2 = - 1" "\<i> ^ 3 = - \<i>" "\<i> ^ 4 = 1" "\<i> ^ 6 = - 1" "\<i> ^ 9 = \<i>"
  "(- \<i>) ^ 2 = - 1" "(- \<i>) ^ 3 = \<i>" "(- \<i>) ^ 4 = 1" "(- \<i>) ^ 6 = - 1" "(- \<i>) ^ 9 = - \<i>"
  by (simp_all add: eval_nat_numeral)

lemma Coefficients_4:
  "Coefficients [a, b, c, d]
   = [a + b + c + d, a - \<i> * b - c + \<i> * d, a - b + c - d, a + \<i> * b - c - \<i> * d]"
proof -
  have len: "length [a, b, c, d] = 4" by simp
  show ?thesis
    unfolding Coefficients_def Let_def len cis_quarter_minus upt4 lessThan4
    by (simp add: i_powers algebra_simps)
qed

lemma Sequence_4:
  "Sequence [a, b, c, d]
   = [a + b + c + d, a + \<i> * b - c - \<i> * d, a - b + c - d, a - \<i> * b - c + \<i> * d]"
proof -
  have len: "length [a, b, c, d] = 4" by simp
  show ?thesis
    unfolding Sequence_def Let_def len cis_quarter_plus upt4 lessThan4
    by (simp add: i_powers algebra_simps)
qed

lemma fft2_padded22: "fft2InPlace padded22 True = Inr spectrum22"
  unfolding fft2InPlace_def Let_def padded22_def spectrum22_def
  by (simp add: Coefficients_4 upt4 complex_eq_iff)

lemma upto3: "[0..3::int] = [0, 1, 2, 3]" "[0..1::int] = [0, 1]" "[0..2::int] = [0, 1, 2]"
  by (simp_all add: upto_rec1)

lemma nextPow2_4: "nextPow2 4 = 4"
  by (simp add: nextPow2_def nextPow2_loop.simps)

lemma rectSize_samples: "rectSize image22 = Inr (2, 2)" "rectSize delta33 = Inr (3, 3)"
  by (simp_all add: rectSize_def image22_def delta33_def)

lemma pad_image22:
  "collect (map (\<lambda>y. collect (map (\<lambda>x.
       bind (sample2D image22 y x PadZeros) (\<lambda>v. Inr (Complex v 0))) [0..4 - 1])) [0..4 - 1])
   = Inr padded22"
  by (simp add: upto3 sample2D_def image22_def padded22_def at2_def PadZeros_def Let_def
      complex_eq_iff)

lemma shift_delta33: "ifftshift2D delta33 = Inr [[1, 0, 0], [0, 0, 0], [0, 0, 0]]"
  by (simp add: ifftshift2D_def delta33_def upto3 Let_def at2_def signed_divide_int_def
      signed_modulo_int_def)

lemma place_psf_shifted:
  "collect (map (\<lambda>y. collect (map (\<lambda>x.
       if y < 3 \<and> x < 3
       then bind (at2 [[1, 0, 0], [0, 0, 0], [0, 0, 0 :: real]] y x) (\<lambda>v. Inr (Complex v 0))
       else at2 (makeComplex2D 4 4) y x) [0..4 - 1])) [0..4 - 1])
   = Inr [[1, 0, 0, 0], [0, 0, 0, 0], [0, 0, 0, 0], [0, 0, 0, 0]]"
  by (simp add: upto3 at2_def makeComplex2D_def complex_eq_iff eval_nat_numeral)

lemma place_psf_unshifted:
  "collect (map (\<lambda>y. collect (map (\<lambda>x.
       if y < 3 \<and> x < 3 then bind (at2 delta33 y x) (\<lambda>v. Inr (Complex v 0))
       else at2 (makeComplex2D 4 4) y x) [0..4 - 1])) [0..4 - 1])
   = Inr [[0, 0, 0, 0], [0, 1, 0, 0], [0, 0, 0, 0], [0, 0, 0, 0]]"
  by (simp add: upto3 at2_def makeComplex2D_def delta33_def complex_eq_iff eval_nat_numeral)

lemma fft2_delta_origin:
  "fft2InPlace [[1, 0, 0, 0], [0, 0, 0, 0], [0, 0, 0, 0], [0, 0, 0, 0]] True = Inr ones44"
  unfolding fft2InPlace_def Let_def ones44_def
  by (simp add: Coefficients_4 upt4 complex_eq_iff)

lemma fft2_delta_centre:
  "fft2InPlace [[0, 0, 0, 0], [0, 1, 0, 0], [0, 0, 0, 0], [0, 0, 0, 0]] True = Inr phases44"
  unfolding fft2InPlace_def Let_def phases44_def
  by (simp add: Coefficients_4 upt4 complex_eq_iff)

lemma inverse_shifted:
  "fft2InPlace (map2 (map2 (*)) spectrum22 ones44) False
   = Inr [[16, 32, 0, 0], [48, 64, 0, 0], [0, 0, 0, 0], [0, 0, 0, 0]]"
  unfolding fft2InPlace_def Let_def spectrum22_def ones44_def
  by (simp add: Sequence_4 upt4 complex_eq_iff)

lemma inverse_unshifted:
  "fft2InPlace (map2 (map2 (*)) spectrum22 phases44) False
   = Inr [[0, 0, 0, 0], [0, 16, 32, 0], [0, 48, 64, 0], [0, 0, 0, 0]]"
  unfolding fft2InPlace_def Let_def spectrum22_def phases44_def
  by (simp add: Sequence_4 upt4 complex_eq_iff)

lemma full_shifted:
  "collect (map (\<lambda>y. collect (map (\<lambda>x.
       bind (at2 [[16, 32, 0, 0], [48, 64, 0, 0], [0, 0, 0, 0], [0, 0, 0, 0 :: complex]] y x)
         (\<lambda>c. Inr (Re c / of_int (4 * 4) / s))) [0..2 + 3 - 1 - 1])) [0..2 + 3 - 1 - 1])
   = Inr [[1 / s, 2 / s, 0, 0], [3 / s, 4 / s, 0, 0], [0, 0, 0, 0], [0, 0, 0, 0]]"
  by (simp add: upto3 at2_def)

lemma full_unshifted:
  "collect (map (\<lambda>y. collect (map (\<lambda>x.
       bind (at2 [[0, 0, 0, 0], [0, 16, 32, 0], [0, 48, 64, 0], [0, 0, 0, 0 :: complex]] y x)
         (\<lambda>c. Inr (Re c / of_int (4 * 4) / s))) [0..2 + 3 - 1 - 1])) [0..2 + 3 - 1 - 1])
   = Inr [[0, 0, 0, 0], [0, 1 / s, 2 / s, 0], [0, 3 / s, 4 / s, 0], [0, 0, 0, 0]]"
  by (simp add: upto3 at2_def)

lemma delta_convolution_shifted:
  "ConvolvePSFFFT image22 delta33 s ConvSame PadZeros True = Inr [[4 / s, 0], [0, 0]]"
proof -
  have FH: "(if nextPow2 (2 + 3 - 1) smod 2 \<noteq> 0 then nextPow2 (2 + 3 - 1) + 1
             else nextPow2 (2 + 3 - 1)) = 4"
    by (simp add: nextPow2_4 signed_modulo_int_def)
  have dims: "(if ConvSame = ConvSame then Inr (2, 2)
          else if ConvSame = ConvFull then Inr (2 + 3 - 1, 2 + 3 - 1)
          else if ConvSame = ConvValid then
            (if 2 - 3 + 1 \<le> (0::int) \<or> 2 - 3 + 1 \<le> (0::int)
             then Inl (Failure ''valid convolution requested but psf larger than image'')
             else Inr (2 - 3 + 1, 2 - 3 + 1))
          else Inl (Failure ''unknown ConvMode'')) = Inr (2 :: int, 2 :: int)"
    by simp
  have src: "(if True then ifftshift2D delta33 else Inr delta33)
             = Inr [[1, 0, 0], [0, 0, 0], [0, 0, 0]]"
    by (simp add: shift_delta33)
  have "ConvolvePSFFFT image22 delta33 s ConvSame PadZeros True
        = crop [[1 / s, 2 / s, 0, 0], [3 / s, 4 / s, 0, 0], [0, 0, 0, 0], [0, 0, 0, 0]]
            (3 sdiv 2) (3 sdiv 2) 2 2"
    using ConvolvePSFFFT_stages [OF rectSize_samples _ dims FH FH pad_image22 src
        place_psf_shifted fft2_padded22 fft2_delta_origin inverse_shifted full_shifted, of s]
    by (simp add: ConvSame_def ConvFull_def)
  also have "\<dots> = Inr [[4 / s, 0], [0, 0]]"
    by (simp add: crop_def upto3 at1_def signed_divide_int_def)
  finally show ?thesis .
qed

lemma delta_convolution_unshifted:
  "ConvolvePSFFFT image22 delta33 s ConvSame PadZeros False
   = Inr [[1 / s, 2 / s], [3 / s, 4 / s]]"
proof -
  have FH: "(if nextPow2 (2 + 3 - 1) smod 2 \<noteq> 0 then nextPow2 (2 + 3 - 1) + 1
             else nextPow2 (2 + 3 - 1)) = 4"
    by (simp add: nextPow2_4 signed_modulo_int_def)
  have dims: "(if ConvSame = ConvSame then Inr (2, 2)
          else if ConvSame = ConvFull then Inr (2 + 3 - 1, 2 + 3 - 1)
          else if ConvSame = ConvValid then
            (if 2 - 3 + 1 \<le> (0::int) \<or> 2 - 3 + 1 \<le> (0::int)
             then Inl (Failure ''valid convolution requested but psf larger than image'')
             else Inr (2 - 3 + 1, 2 - 3 + 1))
          else Inl (Failure ''unknown ConvMode'')) = Inr (2 :: int, 2 :: int)"
    by simp
  have src: "(if False then ifftshift2D delta33 else Inr delta33) = Inr delta33"
    by simp
  have "ConvolvePSFFFT image22 delta33 s ConvSame PadZeros False
        = crop [[0, 0, 0, 0], [0, 1 / s, 2 / s, 0], [0, 3 / s, 4 / s, 0], [0, 0, 0, 0]]
            (3 sdiv 2) (3 sdiv 2) 2 2"
    using ConvolvePSFFFT_stages [OF rectSize_samples _ dims FH FH pad_image22 src
        place_psf_unshifted fft2_padded22 fft2_delta_centre inverse_unshifted full_unshifted, of s]
    by (simp add: ConvSame_def ConvFull_def)
  also have "\<dots> = Inr [[1 / s, 2 / s], [3 / s, 4 / s]]"
    by (simp add: crop_def upto3 at1_def signed_divide_int_def)
  finally show ?thesis .
qed

text \<open>
  Claim C4, as the code has it. \<open>ConvolvePSFFFT\<close> returns an error, and no image, for a
  ragged image or PSF, for an empty image or PSF, for the mode Valid when \<open>H - Ph + 1\<close> or
  \<open>W - Pw + 1\<close> is not positive, and for an unknown mode. On every other input it returns
  an image, whatever the sum of weights is: the sum is only a divisor, it is not checked.
\<close>

theorem ConvolvePSFFFT_rejections:
  "(ragged img \<or> ragged psf \<longrightarrow>
      ConvolvePSFFFT img psf starSum cmode pad centeredPsf = Inl (Failure ''ragged matrix''))
   \<and> (\<not> ragged img \<and> \<not> ragged psf \<and> (img = [] \<or> hd img = [] \<or> psf = [] \<or> hd psf = []) \<longrightarrow>
      ConvolvePSFFFT img psf starSum cmode pad centeredPsf = Inl (Failure ''empty image or psf''))
   \<and> (\<not> ragged img \<and> \<not> ragged psf \<and> img \<noteq> [] \<and> hd img \<noteq> [] \<and> psf \<noteq> [] \<and> hd psf \<noteq> []
        \<and> cmode = ConvValid
        \<and> (int (length img) - int (length psf) + 1 \<le> 0
             \<or> int (length (hd img)) - int (length (hd psf)) + 1 \<le> 0) \<longrightarrow>
      ConvolvePSFFFT img psf starSum cmode pad centeredPsf
      = Inl (Failure ''valid convolution requested but psf larger than image''))
   \<and> (\<not> ragged img \<and> \<not> ragged psf \<and> img \<noteq> [] \<and> hd img \<noteq> [] \<and> psf \<noteq> [] \<and> hd psf \<noteq> []
        \<and> cmode \<noteq> ConvSame \<and> cmode \<noteq> ConvFull \<and> cmode \<noteq> ConvValid \<longrightarrow>
      ConvolvePSFFFT img psf starSum cmode pad centeredPsf = Inl (Failure ''unknown ConvMode''))
   \<and> (\<not> ragged img \<and> \<not> ragged psf \<and> img \<noteq> [] \<and> hd img \<noteq> [] \<and> psf \<noteq> [] \<and> hd psf \<noteq> []
        \<and> (cmode = ConvSame \<or> cmode = ConvFull
             \<or> cmode = ConvValid \<and> 0 < int (length img) - int (length psf) + 1
                \<and> 0 < int (length (hd img)) - int (length (hd psf)) + 1) \<longrightarrow>
      (\<exists>out. ConvolvePSFFFT img psf starSum cmode pad centeredPsf = Inr out))"
proof (intro conjI impI)
  assume "ragged img \<or> ragged psf"
  then show "ConvolvePSFFFT img psf starSum cmode pad centeredPsf = Inl (Failure ''ragged matrix'')"
    by (auto simp: ConvolvePSFFFT_def rectSize_value)
next
  assume "\<not> ragged img \<and> \<not> ragged psf \<and> (img = [] \<or> hd img = [] \<or> psf = [] \<or> hd psf = [])"
  then show "ConvolvePSFFFT img psf starSum cmode pad centeredPsf
             = Inl (Failure ''empty image or psf'')"
    by (auto simp: ConvolvePSFFFT_def rectSize_value)
next
  assume "\<not> ragged img \<and> \<not> ragged psf \<and> img \<noteq> [] \<and> hd img \<noteq> [] \<and> psf \<noteq> [] \<and> hd psf \<noteq> []
        \<and> cmode = ConvValid
        \<and> (int (length img) - int (length psf) + 1 \<le> 0
             \<or> int (length (hd img)) - int (length (hd psf)) + 1 \<le> 0)"
  then show "ConvolvePSFFFT img psf starSum cmode pad centeredPsf
      = Inl (Failure ''valid convolution requested but psf larger than image'')"
    by (auto simp: ConvolvePSFFFT_def rectSize_value ConvValid_def ConvSame_def ConvFull_def)
next
  assume "\<not> ragged img \<and> \<not> ragged psf \<and> img \<noteq> [] \<and> hd img \<noteq> [] \<and> psf \<noteq> [] \<and> hd psf \<noteq> []
        \<and> cmode \<noteq> ConvSame \<and> cmode \<noteq> ConvFull \<and> cmode \<noteq> ConvValid"
  then show "ConvolvePSFFFT img psf starSum cmode pad centeredPsf
             = Inl (Failure ''unknown ConvMode'')"
    by (auto simp: ConvolvePSFFFT_def rectSize_value)
next
  assume a: "\<not> ragged img \<and> \<not> ragged psf \<and> img \<noteq> [] \<and> hd img \<noteq> [] \<and> psf \<noteq> [] \<and> hd psf \<noteq> []
        \<and> (cmode = ConvSame \<or> cmode = ConvFull
             \<or> cmode = ConvValid \<and> 0 < int (length img) - int (length psf) + 1
                \<and> 0 < int (length (hd img)) - int (length (hd psf)) + 1)"
  then have gi: "grid (length img) (length (hd img)) img"
    and gp: "grid (length psf) (length (hd psf)) psf"
    by (simp_all add: grid_of_rect)
  have pos: "0 < length img" "0 < length (hd img)" "0 < length psf" "0 < length (hd psf)"
    using a by simp_all
  have m: "cmode = ConvSame \<or> cmode = ConvFull
           \<or> cmode = ConvValid \<and> length psf \<le> length img \<and> length (hd psf) \<le> length (hd img)"
    using a by auto
  from ConvolvePSFFFT_total [OF gi pos(1,2) gp pos(3,4) m]
  show "\<exists>out. ConvolvePSFFFT img psf starSum cmode pad centeredPsf = Inr out"
    by blast
qed

theorem ConvolvePSFFFT_rejections_witness:
  "ragged ragged22
   \<and> ConvolvePSFFFT ragged22 delta33 1 ConvSame PadZeros False = Inl (Failure ''ragged matrix'')
   \<and> ConvolvePSFFFT [] delta33 1 ConvSame PadZeros False = Inl (Failure ''empty image or psf'')
   \<and> ConvolvePSFFFT image22 delta33 1 ConvValid PadZeros False
      = Inl (Failure ''valid convolution requested but psf larger than image'')
   \<and> ConvolvePSFFFT image22 delta33 1 7 PadZeros False = Inl (Failure ''unknown ConvMode'')
   \<and> \<not> isl (ConvolvePSFFFT image22 delta33 0 ConvSame PadZeros False)"
proof -
  have r: "ragged ragged22" "\<not> ragged image22" "\<not> ragged delta33" "\<not> ragged ([] :: matrix)"
    by (simp_all add: ragged_def ragged22_def image22_def delta33_def)
  have ne: "image22 \<noteq> []" "hd image22 \<noteq> []" "delta33 \<noteq> []" "hd delta33 \<noteq> []"
    "length image22 = 2" "length delta33 = 3" "length (hd image22) = 2" "length (hd delta33) = 3"
    by (simp_all add: image22_def delta33_def)
  have a: "ConvolvePSFFFT ragged22 delta33 1 ConvSame PadZeros False
           = Inl (Failure ''ragged matrix'')"
    using ConvolvePSFFFT_rejections [of ragged22 delta33 1 ConvSame PadZeros False] r by simp
  have b: "ConvolvePSFFFT [] delta33 1 ConvSame PadZeros False
           = Inl (Failure ''empty image or psf'')"
    using ConvolvePSFFFT_rejections [of "[]" delta33 1 ConvSame PadZeros False] r by simp
  have c: "ConvolvePSFFFT image22 delta33 1 ConvValid PadZeros False
      = Inl (Failure ''valid convolution requested but psf larger than image'')"
    using ConvolvePSFFFT_rejections [of image22 delta33 1 ConvValid PadZeros False] r ne by simp
  have d: "ConvolvePSFFFT image22 delta33 1 7 PadZeros False = Inl (Failure ''unknown ConvMode'')"
    using ConvolvePSFFFT_rejections [of image22 delta33 1 7 PadZeros False] r ne
    by (simp add: ConvSame_def ConvFull_def ConvValid_def)
  have e: "\<not> isl (ConvolvePSFFFT image22 delta33 0 ConvSame PadZeros False)"
    using ConvolvePSFFFT_rejections [of image22 delta33 0 ConvSame PadZeros False] r ne by auto
  from r(1) a b c d e show ?thesis by simp
qed

text \<open>
  Claim C4 as it was stated fails for the sum of weights: with the sum \<open>-1\<close> the
  convolution is not rejected, it returns the image with the opposite sign.
\<close>

theorem nonpositive_sum_counterexample:
  "ConvolvePSFFFT image22 delta33 (- 1) ConvSame PadZeros False = Inr [[- 1, - 2], [- 3, - 4]]"
  using delta_convolution_unshifted [of "- 1"] by simp

text \<open>
  Claim C3 says that a centred delta PSF, shifted by \<open>ifftshift2D\<close> before the transform,
  gives back the image in mode Same with zero padding. The code does not: the shift moves
  the peak to the origin and the crop of mode Same then skips \<open>Ph / 2\<close> rows and \<open>Pw / 2\<close>
  columns again, so the output is the image moved up and left, with zeros behind it.
  For the 2 x 2 image and the 3 x 3 delta the output is \<open>[[4, 0], [0, 0]]\<close>.
\<close>

theorem shifted_delta_output:
  "ConvolvePSFFFT image22 delta33 1 ConvSame PadZeros True = Inr [[4, 0], [0, 0]]
   \<and> ConvolvePSFFFT image22 delta33 1 ConvSame PadZeros True \<noteq> Inr image22"
  using delta_convolution_shifted [of 1] by (simp add: image22_def)

text \<open>Without the shift, the other branch of the same function gives back the image.\<close>

lemma unshifted_delta_output:
  "ConvolvePSFFFT image22 delta33 1 ConvSame PadZeros False = Inr image22"
  using delta_convolution_unshifted [of 1] by (simp add: image22_def)

end
